theory Spec2Isabelle
  imports Main "HOL-Library.Signed_Division" "HOL-Library.Char_ord" "HOL-Library.List_Lexorder"
begin

section \<open>Integer helpers of common\_utils.hpp\<close>

text \<open>
  \<^verbatim>\<open>idx_t\<close> is a signed 64-bit integer. It is modelled by \<^typ>\<open>int\<close>; signed overflow is
  undefined behaviour in C++ and is outside every statement below. C++ integer division
  truncates toward zero, which is \<open>sdiv\<close>.

  \<^verbatim>\<open>#define CEIL_DIV(numer, denom) (((numer) + (denom) - 1) / (denom))\<close>
  \<^verbatim>\<open>#define ROUND_UP(n, mult) (CEIL_DIV(n, mult) * (mult))\<close>
\<close>

type_synonym idx_t = int

definition CEIL_DIV :: "idx_t \<Rightarrow> idx_t \<Rightarrow> idx_t" where
  "CEIL_DIV numer denom = (numer + denom - 1) sdiv denom"

definition ROUND_UP :: "idx_t \<Rightarrow> idx_t \<Rightarrow> idx_t" where
  "ROUND_UP n mult = CEIL_DIV n mult * mult"

section \<open>yask\_for (common\_utils.hpp)\<close>

text \<open>
  A visitor invocation is recorded as \<open>(start, stop, thread_num)\<close>; the result of
  \<open>yask_for\<close> is the list of invocations it makes, or \<open>None\<close> when a loop never ends.
  The environment holds what the function reads besides its arguments: whether the file
  was compiled with \<^verbatim>\<open>_OPENMP\<close>, \<^verbatim>\<open>omp_get_max_active_levels()\<close>, the two entries of
  \<^verbatim>\<open>yask_num_threads\<close>, and the thread number OpenMP hands to the iteration at index \<open>i\<close>
  (constantly 0 without OpenMP, where \<^verbatim>\<open>omp_get_thread_num\<close> is the stub returning 0).
\<close>

type_synonym visit = "idx_t \<times> idx_t \<times> idx_t"

record omp_env =
  openmp :: bool
  max_active_levels :: int
  yask_num_threads0 :: int
  yask_num_threads1 :: int
  omp_thread_num :: "idx_t \<Rightarrow> idx_t"

text \<open>
  \<^verbatim>\<open>for (idx_t i = i0; i < lim; i += stride) { stop = min(i + stride, end); visitor(i, stop, tn); }\<close>
  The canonical loop has \<open>i0 = 0\<close> and \<open>lim = end\<close>; the inner loop of the nested path runs
  from \<open>tbegin\<close> to \<open>tend\<close>.
\<close>

partial_function (option) for_loop ::
  "idx_t \<Rightarrow> idx_t \<Rightarrow> idx_t \<Rightarrow> idx_t \<Rightarrow> (idx_t \<Rightarrow> idx_t) \<Rightarrow> visit list \<Rightarrow> visit list option" where
  "for_loop i lim end stride tn acc =
     (if i < lim
      then for_loop (i + stride) lim end stride tn (acc @ [(i, min (i + stride) end, tn i)])
      else Some acc)"

text \<open>The outer parallel loop of the nested path, over the outer thread numbers \<open>n\<close>.\<close>

fun nested_outer ::
  "nat list \<Rightarrow> idx_t \<Rightarrow> idx_t \<Rightarrow> idx_t \<Rightarrow> idx_t \<Rightarrow> (idx_t \<Rightarrow> idx_t) \<Rightarrow> visit list
     \<Rightarrow> visit list option" where
  "nested_outer [] niters_per_thr end stride tnthr tn acc = Some acc"
| "nested_outer (n # ns) niters_per_thr end stride tnthr tn acc =
     (let tbegin = int n * niters_per_thr * stride;
          tend = min end (tbegin + niters_per_thr * stride)
      in case for_loop tbegin tend end stride (\<lambda>i. int n * tnthr + tn i) acc of
           None \<Rightarrow> None
         | Some acc' \<Rightarrow> nested_outer ns niters_per_thr end stride tnthr tn acc')"

definition yask_for :: "omp_env \<Rightarrow> idx_t \<Rightarrow> idx_t \<Rightarrow> idx_t \<Rightarrow> visit list option" where
  "yask_for env begin end stride =
     (if end \<le> begin then Some []
      else if \<not> openmp env then for_loop 0 end end stride (\<lambda>_. 0) []
      else if max_active_levels env < 2 \<or> yask_num_threads0 env = 0 \<or> yask_num_threads1 env = 0
      then for_loop 0 end end stride (omp_thread_num env) []
      else
        (let nthr = yask_num_threads0 env;
             niter = CEIL_DIV (end - begin) stride;
             niters_per_thr = CEIL_DIV niter nthr
         in nested_outer [0..<nat nthr] niters_per_thr end stride (yask_num_threads1 env)
              (omp_thread_num env) []))"

text \<open>The index set handed to the visitor: the union of the chunks \<open>[start, stop)\<close>.\<close>

definition chunks :: "visit list \<Rightarrow> idx_t set" where
  "chunks vs = (\<Union>(s, e, t) \<in> set vs. {s..<e})"

text \<open>The environment of a build without OpenMP.\<close>

definition serial_env :: omp_env where
  "serial_env = \<lparr>openmp = False, max_active_levels = 1, yask_num_threads0 = 0,
                  yask_num_threads1 = 0, omp_thread_num = (\<lambda>_. 0)\<rparr>"

definition non_nested :: "omp_env \<Rightarrow> bool" where
  "non_nested env \<longleftrightarrow>
     \<not> openmp env \<or> max_active_levels env < 2 \<or> yask_num_threads0 env = 0 \<or> yask_num_threads1 env = 0"

section \<open>Exceptions\<close>

text \<open>
  The code throws a single type, \<^verbatim>\<open>yask_exception\<close>, carrying a message. One constructor
  stands for each \<^verbatim>\<open>THROW_YASK_EXCEPTION\<close> site that the functions below contain; the arguments
  are the values the message prints.
\<close>

datatype yask_exception =
    Local_domain_too_small nat idx_t idx_t
  | Run_without_prepare
  | Own_distance_nonzero idx_t
  | Ranks_at_same_coords nat nat
  | Ranks_unaligned nat nat nat nat idx_t idx_t
  | Ranks_requested_mismatch idx_t idx_t
  | Rank_index_out_of_range nat idx_t

text \<open>
  Modelled from the spec: the error taxonomy of section 7 (kinds, not types). The code has no
  such classification; the kinds are assigned to the throw sites by the failures the spec
  lists under each kind: \<open>SchedulingError\<close> is \<^verbatim>\<open>run_solution\<close> before \<^verbatim>\<open>prepare_solution\<close>,
  \<open>TopologyError\<close> is a rank count mismatch, duplicate rank coordinates or a missing
  neighbour alignment, \<open>ConfigError\<close> is an inconsistent size. The internal-error throw
  has no kind in the spec.
\<close>

datatype error_kind = ConfigError | StorageError | SchedulingError | TopologyError | CommError

fun kind_of :: "yask_exception \<Rightarrow> error_kind option" where
  "kind_of (Local_domain_too_small d sz mn) = Some ConfigError"
| "kind_of Run_without_prepare = Some SchedulingError"
| "kind_of (Own_distance_nonzero m) = None"
| "kind_of (Ranks_at_same_coords me rn) = Some TopologyError"
| "kind_of (Ranks_unaligned rn me di dj rnsz mysz) = Some TopologyError"
| "kind_of (Ranks_requested_mismatch req nr) = Some TopologyError"
| "kind_of (Rank_index_out_of_range j ix) = Some ConfigError"

section \<open>Settings and context (settings.hpp, setup.cpp)\<close>

text \<open>
  Tuples are lists indexed by position. A tuple over the stencil dims has the step dim at
  position 0 (\<^verbatim>\<open>step_posn = 0\<close>) and the domain dims after it (\<^verbatim>\<open>outer_posn = 1\<close>); a tuple
  over the domain dims has the domain dims only. \<^verbatim>\<open>DOMAIN_VAR_LOOP(i, j)\<close> runs \<open>j\<close> over the
  domain dims \<open>0 .. nddims - 1\<close> with \<open>i = j + 1\<close> the position of the same dim in the stencil
  dims (``i: index for stencil dims, j: index for domain dims'').
\<close>

record kernel_settings =
  rank_sizes :: "idx_t list"
  region_sizes :: "idx_t list"
  block_sizes :: "idx_t list"
  mini_block_sizes :: "idx_t list"
  num_ranks :: "idx_t list"
  rank_indices :: "idx_t list"
  allow_pack_tuners :: bool

text \<open>What \<^verbatim>\<open>update_grid_info\<close> reads of a grid: the dims it uses and its halo sizes.\<close>

record grid_info =
  is_dim_used :: "bool list"
  is_user_grid :: bool
  left_halo_size :: "idx_t list"
  right_halo_size :: "idx_t list"

record bounding_box =
  bb_begin :: "idx_t list"
  bb_end :: "idx_t list"

record stencil_context =
  nddims :: nat
  fold_pts :: "idx_t list"
  num_packs :: nat
  opts :: kernel_settings
  gridPtrs :: "grid_info list"
  max_halos :: "idx_t list"
  wf_steps :: idx_t
  num_wf_shifts :: idx_t
  wf_angles :: "idx_t list"
  wf_shift_pts :: "idx_t list"
  left_wf_exts :: "idx_t list"
  right_wf_exts :: "idx_t list"
  use_pack_tuners :: bool
  tb_steps :: idx_t
  num_tb_shifts :: idx_t
  tb_angles :: "idx_t list"
  tb_widths :: "idx_t list"
  tb_tops :: "idx_t list"
  mb_angles :: "idx_t list"
  rank_bb :: bounding_box



subsection \<open>update\_tb\_info\<close>

text \<open>
  The body of the first loop of \<^verbatim>\<open>update_tb_info\<close> (run when the requested \<open>tb_steps\<close> is
  positive) for dim \<open>j\<close>: it sets the mini-block and temporal-block angles of the dim and
  lowers \<open>max_steps\<close>.
\<close>

definition tb_angle_dim :: "stencil_context \<times> idx_t \<Rightarrow> nat \<Rightarrow> stencil_context \<times> idx_t" where
  "tb_angle_dim cm j =
     (let c = fst cm;
          max_steps = snd cm;
          i = j + 1;
          rnsize = region_sizes (opts c) ! i;
          blksize = block_sizes (opts c) ! i;
          mblksize = mini_block_sizes (opts c) ! i;
          fpts = fold_pts c ! j;
          angle = ROUND_UP (max_halos c ! j) fpts;
          mb_angle = (if mblksize < blksize then angle else 0);
          tb_angle = (if blksize < rnsize then angle else 0);
          c' = c\<lparr>mb_angles := (mb_angles c)[j := mb_angle],
                  tb_angles := (tb_angles c)[j := tb_angle]\<rparr>
      in if tb_angle > 0
         then (let top_sz = fpts;
                   sh_pts = tb_angle * 2 * int (num_packs c);
                   nsteps = (blksize - top_sz + tb_angle * 2) sdiv sh_pts
               in (c', min max_steps nsteps))
         else (c', max_steps))"

fun tb_angle_loop :: "nat list \<Rightarrow> stencil_context \<times> idx_t \<Rightarrow> stencil_context \<times> idx_t" where
  "tb_angle_loop [] cm = cm"
| "tb_angle_loop (j # js) cm = tb_angle_loop js (tb_angle_dim cm j)"

text \<open>
  The body of the last loop of \<^verbatim>\<open>update_tb_info\<close> for dim \<open>j\<close>: the base and the top of the
  trapezoid in that dim.
\<close>

definition tb_width_dim :: "stencil_context \<Rightarrow> nat \<Rightarrow> stencil_context" where
  "tb_width_dim c j =
     (let i = j + 1;
          blk_sz = block_sizes (opts c) ! i;
          tb_angle = tb_angles c ! j;
          c1 = c\<lparr>tb_widths := (tb_widths c)[j := blk_sz], tb_tops := (tb_tops c)[j := blk_sz]\<rparr>
      in if num_tb_shifts c > 0 \<and> tb_angle > 0
         then (let fpts = fold_pts c ! j;
                   min_top_sz = fpts;
                   sa = num_tb_shifts c * tb_angle;
                   min_blk_width = min_top_sz + 2 * sa;
                   blk_width = max (ROUND_UP (CEIL_DIV blk_sz 2 + sa) fpts) min_blk_width;
                   top_sz = max (blk_width - 2 * sa) 0
               in c1\<lparr>tb_widths := (tb_widths c1)[j := blk_width],
                      tb_tops := (tb_tops c1)[j := top_sz]\<rparr>)
         else c1)"

fun tb_width_loop :: "nat list \<Rightarrow> stencil_context \<Rightarrow> stencil_context" where
  "tb_width_loop [] c = c"
| "tb_width_loop (j # js) c = tb_width_loop js (tb_width_dim c j)"

text \<open>
  \<^verbatim>\<open>update_tb_info\<close> in its four stages: get the requested size and reset all TB and MB
  vars; set the angles and limit \<open>tb_steps\<close>; calculate the number of shifts from the steps;
  calculate the trapezoid of each dim.
\<close>

definition tb_reset :: "stencil_context \<Rightarrow> stencil_context" where
  "tb_reset c =
     c\<lparr>tb_steps := block_sizes (opts c) ! 0, num_tb_shifts := 0,
       tb_angles := replicate (length (tb_angles c)) 0,
       tb_widths := replicate (length (tb_widths c)) 0,
       tb_tops := replicate (length (tb_tops c)) 0,
       mb_angles := replicate (length (mb_angles c)) 0\<rparr>"

definition tb_set_angles :: "stencil_context \<Rightarrow> stencil_context" where
  "tb_set_angles c =
     (if tb_steps c > 0
      then (let cm = tb_angle_loop [0..<nddims c] (c, min (tb_steps c) (wf_steps c))
            in (fst cm)\<lparr>tb_steps := min (tb_steps c) (snd cm)\<rparr>)
      else c)"

definition tb_set_shifts :: "stencil_context \<Rightarrow> stencil_context" where
  "tb_set_shifts c =
     (if tb_steps c > 0
      then (let s = int (num_packs c) * tb_steps c
            in c\<lparr>num_tb_shifts := (if s > 0 then s - 1 else s)\<rparr>)
      else c)"

definition update_tb_info :: "stencil_context \<Rightarrow> stencil_context" where
  "update_tb_info c = tb_width_loop [0..<nddims c] (tb_set_shifts (tb_set_angles (tb_reset c)))"

subsection \<open>update\_grid\_info\<close>







text \<open>The example of the comment in \<^verbatim>\<open>update_tb_info\<close>: \<^verbatim>\<open>blk_sz=16, angle=4, nshifts=1, fpts=4\<close>.\<close>

definition tb_example :: stencil_context where
  "tb_example =
     \<lparr>nddims = 1, fold_pts = [4], num_packs = 1,
      opts = \<lparr>rank_sizes = [0, 64], region_sizes = [4, 64], block_sizes = [2, 16],
               mini_block_sizes = [0, 16], num_ranks = [1], rank_indices = [0],
               allow_pack_tuners = False\<rparr>,
      gridPtrs = [\<lparr>is_dim_used = [True], is_user_grid = False,
                   left_halo_size = [4], right_halo_size = [3]\<rparr>],
      max_halos = [4], wf_steps = 4, num_wf_shifts = 3, wf_angles = [0], wf_shift_pts = [0],
      left_wf_exts = [0], right_wf_exts = [0], use_pack_tuners = False,
      tb_steps = 0, num_tb_shifts = 0, tb_angles = [0], tb_widths = [0], tb_tops = [0],
      mb_angles = [0], rank_bb = \<lparr>bb_begin = [0], bb_end = [64]\<rparr>\<rparr>"

section \<open>shift\_region (context.cpp)\<close>

text \<open>
  The \<^verbatim>\<open>begin\<close> and \<^verbatim>\<open>end\<close> tuples of a \<^verbatim>\<open>ScanIndices\<close>, over the stencil dims. The state of the
  MPI overlap that \<^verbatim>\<open>shift_region\<close> reads is held in one record; \<^verbatim>\<open>is_overlap_active()\<close> and
  \<^verbatim>\<open>does_exterior_exist(dim, is_left)\<close> are declared outside the repository's files here and
  are taken as they are given.
\<close>

record scan_indices =
  si_begin :: "idx_t list"
  si_end :: "idx_t list"

record mpi_section =
  is_overlap_active :: bool
  mpi_exterior_dim :: int
  do_mpi_interior :: bool
  do_mpi_left :: bool
  do_mpi_right :: bool
  mpi_interior :: bounding_box
  does_exterior_exist :: "nat \<Rightarrow> bool \<Rightarrow> bool"

text \<open>
  The body of the loop over the domain dims, for dim \<open>j\<close>, in the steps of the source. Each
  step takes and returns the pair \<open>(rstart, rstop)\<close>.

  ``Trim to extended BB of pack. This will also trim to the extended BB of the rank.''
\<close>

definition trim_to_pack_bb :: "bounding_box \<Rightarrow> nat \<Rightarrow> idx_t \<times> idx_t \<Rightarrow> idx_t \<times> idx_t" where
  "trim_to_pack_bb pbb j r = (max (fst r) (bb_begin pbb ! j), min (snd r) (bb_end pbb ! j))"

text \<open>
  ``In left ext, add 'angle' points for every shift to get region boundary in ext. In right
  ext, subtract 'angle' points for every shift.''
\<close>

definition trim_in_wf_exts :: "stencil_context \<Rightarrow> nat \<Rightarrow> idx_t \<Rightarrow> idx_t \<times> idx_t \<Rightarrow> idx_t \<times> idx_t" where
  "trim_in_wf_exts c j shift_amt r =
     (let dbegin = bb_begin (rank_bb c) ! j;
          dend = bb_end (rank_bb c) ! j;
          rstart = (if fst r < dbegin \<and> left_wf_exts c ! j \<noteq> 0
                    then max (fst r) (dbegin - left_wf_exts c ! j + shift_amt) else fst r);
          rstop = (if snd r > dend \<and> right_wf_exts c ! j \<noteq> 0
                   then min (snd r) (dend + right_wf_exts c ! j - shift_amt) else snd r)
      in (rstart, rstop))"

text \<open>
  ``Trim region based on current MPI section if using overlapping but not whole-block
  method.'' The interior boundaries are modified when doing WF tiling. The result is
  \<open>None\<close> where the specified exterior section does not exist (\<^verbatim>\<open>ok = false; break\<close>).
\<close>

definition interior_bounds :: "stencil_context \<Rightarrow> mpi_section \<Rightarrow> nat \<Rightarrow> idx_t \<Rightarrow> idx_t \<times> idx_t" where
  "interior_bounds c m j shift_amt =
     (let int_begin = bb_begin (mpi_interior m) ! j;
          int_end = bb_end (mpi_interior m) ! j
      in if wf_steps c > 0
         then (if does_exterior_exist m j True then int_begin + wf_shift_pts c ! j - shift_amt
               else int_begin,
               if does_exterior_exist m j False then int_end - wf_shift_pts c ! j + shift_amt
               else int_end)
         else (int_begin, int_end))"

definition trim_to_mpi_section ::
  "stencil_context \<Rightarrow> mpi_section \<Rightarrow> nat \<Rightarrow> idx_t \<Rightarrow> idx_t \<times> idx_t \<Rightarrow> (idx_t \<times> idx_t) option" where
  "trim_to_mpi_section c m j shift_amt r =
     (let int_begin = fst (interior_bounds c m j shift_amt);
          int_end = snd (interior_bounds c m j shift_amt)
      in if do_mpi_interior m
         then Some (max (fst r) int_begin, min (snd r) int_end)
         else if \<not> does_exterior_exist m (nat (mpi_exterior_dim m)) (do_mpi_left m)
         then None
         else
           (let r1 = (if int j = mpi_exterior_dim m
                      then (if do_mpi_left m then (fst r, min (snd r) int_begin)
                            else (max (max (fst r) int_end) int_begin, snd r))
                      else r);
                r2 = (if int j < mpi_exterior_dim m
                      then (max (fst r1) int_begin, min (snd r1) int_end)
                      else r1)
            in Some r2))"

text \<open>
  The whole body: the shifted and trimmed \<open>(rstart, rstop)\<close>, or \<open>None\<close> where the code sets
  \<^verbatim>\<open>ok = false\<close> and leaves the loop. \<open>bp\<close> is the bounding box of the pack, \<open>None\<close> for a null
  pack pointer (``trim only if pack is specified'').
\<close>

definition shift_region_dim ::
  "stencil_context \<Rightarrow> mpi_section \<Rightarrow> idx_t list \<Rightarrow> idx_t list \<Rightarrow> idx_t \<Rightarrow> bounding_box option
     \<Rightarrow> nat \<Rightarrow> (idx_t \<times> idx_t) option" where
  "shift_region_dim c m base_start base_stop shift_num bp j =
     (let i = j + 1;
          angle = wf_angles c ! j;
          shift_amt = angle * shift_num;
          rstart = base_start ! i - shift_amt;
          rstop = base_stop ! i - shift_amt
      in case bp of
           None \<Rightarrow> Some (rstart, rstop)
         | Some pbb \<Rightarrow>
            (let r = trim_in_wf_exts c j shift_amt (trim_to_pack_bb pbb j (rstart, rstop))
             in case (if is_overlap_active m \<and> mpi_exterior_dim m \<ge> 0
                      then trim_to_mpi_section c m j shift_amt r else Some r) of
                  None \<Rightarrow> None
                | Some r' \<Rightarrow> if snd r' \<le> fst r' then None else Some r'))"

fun shift_region_loop ::
  "nat list \<Rightarrow> stencil_context \<Rightarrow> mpi_section \<Rightarrow> idx_t list \<Rightarrow> idx_t list \<Rightarrow> idx_t
     \<Rightarrow> bounding_box option \<Rightarrow> scan_indices \<Rightarrow> bool \<times> scan_indices" where
  "shift_region_loop [] c m base_start base_stop shift_num bp idxs = (True, idxs)"
| "shift_region_loop (j # js) c m base_start base_stop shift_num bp idxs =
     (case shift_region_dim c m base_start base_stop shift_num bp j of
        None \<Rightarrow> (False, idxs)
      | Some (rstart, rstop) \<Rightarrow>
          shift_region_loop js c m base_start base_stop shift_num bp
            (idxs\<lparr>si_begin := (si_begin idxs)[j + 1 := rstart],
                  si_end := (si_end idxs)[j + 1 := rstop]\<rparr>))"

definition shift_region ::
  "stencil_context \<Rightarrow> mpi_section \<Rightarrow> idx_t list \<Rightarrow> idx_t list \<Rightarrow> idx_t
     \<Rightarrow> bounding_box option \<Rightarrow> scan_indices \<Rightarrow> bool \<times> scan_indices" where
  "shift_region c m base_start base_stop shift_num bp idxs =
     shift_region_loop [0..<nddims c] c m base_start base_stop shift_num bp idxs"


text \<open>
  An example with a region smaller than the rank, before \<^verbatim>\<open>update_grid_info\<close>: one domain
  dim of 64 points, regions of 32, one grid with halos 4 and 3, fold of 4, one pack,
  4 wave-front steps.
\<close>

definition wf_example :: stencil_context where
  "wf_example =
     \<lparr>nddims = 1, fold_pts = [4], num_packs = 1,
      opts = \<lparr>rank_sizes = [0, 64], region_sizes = [4, 32], block_sizes = [0, 16],
               mini_block_sizes = [0, 16], num_ranks = [1], rank_indices = [0],
               allow_pack_tuners = False\<rparr>,
      gridPtrs = [\<lparr>is_dim_used = [True], is_user_grid = False,
                   left_halo_size = [4], right_halo_size = [3]\<rparr>],
      max_halos = [0], wf_steps = 0, num_wf_shifts = 0, wf_angles = [0], wf_shift_pts = [0],
      left_wf_exts = [0], right_wf_exts = [0], use_pack_tuners = False,
      tb_steps = 0, num_tb_shifts = 0, tb_angles = [0], tb_widths = [0], tb_tops = [0],
      mb_angles = [0], rank_bb = \<lparr>bb_begin = [0], bb_end = [64]\<rparr>\<rparr>"

definition no_overlap :: mpi_section where
  "no_overlap =
     \<lparr>is_overlap_active = False, mpi_exterior_dim = -1, do_mpi_interior = True,
      do_mpi_left = True, do_mpi_right = True,
      mpi_interior = \<lparr>bb_begin = [0], bb_end = [64]\<rparr>,
      does_exterior_exist = (\<lambda>j l. False)\<rparr>"


section \<open>Tuples (tuple.hpp is not among the repository's files here)\<close>

text \<open>
  Modelled from the spec: \<^verbatim>\<open>Tuple::visitAllPoints\<close> is declared in \<^verbatim>\<open>tuple.hpp\<close>, which is
  not under the sources. Section 4.1 of the spec gives it as: ``a \<^verbatim>\<open>visit_all_points(visitor)\<close>
  that enumerates the n-D box in row-major order, passing the tuple and its 1-D offset''.
  \<open>all_points sizes\<close> lists the points of the box \<open>[0, sizes)\<close> in row-major order (the last
  dim varies fastest). The visitor returns \<^verbatim>\<open>true\<close> to keep visiting; the callers below
  thread their state through the list. The other order of a box, with the first dim
  varying fastest, is \<open>all_points_first_inner\<close>; \<open>visit_order\<close> selects between the two, so
  that what holds for one order only is stated for that order.

  The sources show the order with the first dim varying fastest: the table of the rank
  indices in \<^verbatim>\<open>yk_solution_api.hpp\<close> (``MPI rank index = 1, x rank index = 1, y rank index =
  0'' in a 2-by-3 x, y domain), which \<^verbatim>\<open>_num_ranks.unlayout(me)\<close> computes in \<^verbatim>\<open>setupRank\<close>, and
  the scan of \<^verbatim>\<open>find_bounding_box\<close>, which scans again after shortening any dim but the last:
  the last dim is the outermost loop of the visit.
\<close>

fun all_points :: "nat list \<Rightarrow> nat list list" where
  "all_points [] = [[]]"
| "all_points (n # ns) = concat (map (\<lambda>i. map ((#) i) (all_points ns)) [0..<n])"

definition all_points_first_inner :: "nat list \<Rightarrow> nat list list" where
  "all_points_first_inner sizes = map rev (all_points (rev sizes))"

definition visit_order :: "bool \<Rightarrow> nat list \<Rightarrow> nat list list" where
  "visit_order first_inner sizes =
     (if first_inner then all_points_first_inner sizes else all_points sizes)"

text \<open>\<^verbatim>\<open>Tuple::product()\<close> and \<^verbatim>\<open>Tuple::max()\<close>: the product and the largest of the values.\<close>

definition tuple_product :: "idx_t list \<Rightarrow> idx_t" where
  "tuple_product xs = prod_list xs"

definition tuple_max :: "idx_t list \<Rightarrow> idx_t" where
  "tuple_max xs = Max (set xs)"

section \<open>setupRank: the rank layout (setup.cpp)\<close>

text \<open>
  ``Make list of factors of number of ranks'':
  \<^verbatim>\<open>for (idx_t n = 1; n <= nr; n++) if (nr % n == 0) facts.push_back(n);\<close>
\<close>

definition rank_factors :: "idx_t \<Rightarrow> idx_t list" where
  "rank_factors nr = filter (\<lambda>n. nr smod n = 0) (map int [1..<nat (nr + 1)])"

text \<open>
  The number of options searched in each dim: 1 for the first dim and for a dim whose
  count is specified, the number of factors otherwise.
\<close>

definition combo_sizes :: "idx_t list \<Rightarrow> idx_t list \<Rightarrow> nat list" where
  "combo_sizes facts nranks =
     map (\<lambda>j. if j = 0 \<or> nranks ! j \<noteq> 0 then 1 else length facts) [0..<length nranks]"

text \<open>
  The tuple the visitor builds from one combo. First the factors at the given indices,
  overridden with the specified values; \<open>-1\<close> in the first dim marks ``needs to be
  calculated''.
\<close>

definition override_specified :: "idx_t list \<Rightarrow> idx_t list \<Rightarrow> nat list \<Rightarrow> idx_t list" where
  "override_specified facts nranks combo =
     map (\<lambda>j. if nranks ! j \<noteq> 0 then nranks ! j
               else if j = 0 then - 1 else map (\<lambda>ix. facts ! ix) combo ! j) [0..<length nranks]"

text \<open>
  ``Replace first factor with computed value if not set'':
  \<^verbatim>\<open>if (num_ranks[0] == -1) { num_ranks[0] = 1; num_ranks[0] = nr / num_ranks.product(); }\<close>
\<close>

definition combo_layout :: "idx_t \<Rightarrow> idx_t list \<Rightarrow> idx_t list \<Rightarrow> nat list \<Rightarrow> idx_t list" where
  "combo_layout nr facts nranks combo =
     (let num_ranks' = override_specified facts nranks combo
      in if num_ranks' ! 0 = - 1
         then (let num_ranks1 = num_ranks'[0 := 1]
               in num_ranks1[0 := nr sdiv tuple_product num_ranks1])
         else num_ranks')"

text \<open>
  The visitor: a valid layout replaces the best so far when there is none yet or when its
  max size is smaller. The empty list is the \<^verbatim>\<open>IdxTuple best\<close> before any layout is stored
  (\<^verbatim>\<open>best.size() == 0\<close>).
\<close>

definition layout_visitor :: "idx_t \<Rightarrow> idx_t list \<Rightarrow> idx_t list \<Rightarrow> idx_t list \<Rightarrow> nat list \<Rightarrow> idx_t list" where
  "layout_visitor nr facts nranks best combo =
     (let num_ranks' = combo_layout nr facts nranks combo
      in if tuple_product num_ranks' = nr
         then (if length best = 0 \<or> tuple_max num_ranks' < tuple_max best then num_ranks' else best)
         else best)"

text \<open>
  The search of \<^verbatim>\<open>setupRank\<close>, entered when some count is unset (the product of the counts is
  zero). The result is \<open>None\<close> where \<^verbatim>\<open>assert(best.size())\<close> fails: no layout was valid.
\<close>

definition find_rank_layout :: "bool \<Rightarrow> idx_t \<Rightarrow> idx_t list \<Rightarrow> idx_t list option" where
  "find_rank_layout first_inner nr nranks =
     (let facts = rank_factors nr;
          best = foldl (layout_visitor nr facts nranks) []
                   (visit_order first_inner (combo_sizes facts nranks))
      in if length best = 0 then None else Some best)"

definition set_num_ranks :: "bool \<Rightarrow> idx_t \<Rightarrow> idx_t list \<Rightarrow> idx_t list option" where
  "set_num_ranks first_inner nr nranks =
     (if tuple_product nranks = 0 then find_rank_layout first_inner nr nranks else Some nranks)"

text \<open>
  A layout that the claim quantifies over: one positive count per dim, the product of the
  counts is the number of ranks, and every specified (non-zero) count is kept.
\<close>

definition is_rank_layout :: "idx_t \<Rightarrow> idx_t list \<Rightarrow> idx_t list \<Rightarrow> bool" where
  "is_rank_layout nr nranks layout \<longleftrightarrow>
     length layout = length nranks \<and> list_all (\<lambda>x. 0 < x) layout \<and> prod_list layout = nr
     \<and> list_all (\<lambda>j. nranks ! j = 0 \<or> layout ! j = nranks ! j) [0..<length nranks]"

section \<open>setupRank: the passes over the ranks (setup.cpp)\<close>

text \<open>
  The tables shared across the ranks, as they are after the broadcasts of a pass:
  \<^verbatim>\<open>coords[rn][j]\<close> is the index of rank \<open>rn\<close> in domain dim \<open>j\<close> and \<^verbatim>\<open>rsizes[rn][j]\<close> its
  local-domain size. The loop over the ranks runs on rank \<open>me\<close>, the checking rank. Rank
  indices lie below the number of ranks, an \<^verbatim>\<open>int\<close>, so the narrowing of the distances to
  \<^verbatim>\<open>int\<close> loses nothing.
\<close>

record rank_tables =
  coords :: "idx_t list list"
  rsizes :: "idx_t list list"

record rank_pass_state =
  rank_domain_sums :: "idx_t list"
  rank_domain_offsets :: "idx_t list"
  num_neighbors :: nat
  my_neighbors :: "(idx_t list \<times> nat \<times> idx_t) list"

text \<open>``Coord offset of rn from me: prev => negative, self => 0, next => positive.''\<close>

definition rank_deltas :: "rank_tables \<Rightarrow> nat \<Rightarrow> nat \<Rightarrow> nat \<Rightarrow> idx_t list" where
  "rank_deltas t me rn n = map (\<lambda>di. coords t ! rn ! di - coords t ! me ! di) [0..<n]"

text \<open>``Manhattan distance from rn (sum of abs deltas in all dims). Max distance in any dim.''\<close>

definition man_dist :: "idx_t list \<Rightarrow> idx_t" where
  "man_dist rdeltas = foldl (\<lambda>mandist d. mandist + \<bar>d\<bar>) 0 rdeltas"

definition max_dist :: "idx_t list \<Rightarrow> idx_t" where
  "max_dist rdeltas = foldl (\<lambda>maxdist d. max maxdist \<bar>d\<bar>) 0 rdeltas"

text \<open>
  ``Is rank 'rn' in-line with my rank in 'dname' dim? True when deltas in all other dims
  are zero.''
\<close>

definition is_inline :: "idx_t list \<Rightarrow> nat \<Rightarrow> bool" where
  "is_inline rdeltas di = list_all (\<lambda>dj. \<not> (di \<noteq> dj \<and> rdeltas ! dj \<noteq> 0)) [0..<length rdeltas]"

text \<open>
  ``Make sure all the other dims are the same size'': the loop over \<open>dj\<close> in the second
  pass, with the exception it throws at the first dim whose sizes differ.
\<close>

fun check_same_sizes :: "nat list \<Rightarrow> rank_tables \<Rightarrow> nat \<Rightarrow> nat \<Rightarrow> nat \<Rightarrow> yask_exception option" where
  "check_same_sizes [] t me rn di = None"
| "check_same_sizes (dj # djs) t me rn di =
     (if di \<noteq> dj
      then (let mysz = rsizes t ! me ! dj; rnsz = rsizes t ! rn ! dj
            in if mysz \<noteq> rnsz then Some (Ranks_unaligned rn me di dj rnsz mysz)
               else check_same_sizes djs t me rn di)
      else check_same_sizes djs t me rn di)"

text \<open>The body of the loop through the domain dims, for rank \<open>rn\<close> and dim \<open>di\<close>.\<close>

definition inline_dim ::
  "nat \<Rightarrow> rank_tables \<Rightarrow> nat \<Rightarrow> nat \<Rightarrow> idx_t list \<Rightarrow> rank_pass_state \<Rightarrow> nat
     \<Rightarrow> yask_exception + rank_pass_state" where
  "inline_dim pass t me rn rdeltas st di =
     (if is_inline rdeltas di
      then (let st1 = st\<lparr>rank_domain_sums :=
                          (rank_domain_sums st)[di := rank_domain_sums st ! di + rsizes t ! rn ! di]\<rparr>
            in if pass = 1
               then (case check_same_sizes [0..<length rdeltas] t me rn di of
                       Some e \<Rightarrow> Inl e
                     | None \<Rightarrow>
                         Inr (if rdeltas ! di < 0
                              then st1\<lparr>rank_domain_offsets :=
                                         (rank_domain_offsets st1)
                                           [di := rank_domain_offsets st1 ! di + rsizes t ! rn ! di]\<rparr>
                              else st1))
               else Inr st1)
      else Inr st)"

fun inline_dims_loop ::
  "nat list \<Rightarrow> nat \<Rightarrow> rank_tables \<Rightarrow> nat \<Rightarrow> nat \<Rightarrow> idx_t list \<Rightarrow> rank_pass_state
     \<Rightarrow> yask_exception + rank_pass_state" where
  "inline_dims_loop [] pass t me rn rdeltas st = Inr st"
| "inline_dims_loop (di # dis) pass t me rn rdeltas st =
     (case inline_dim pass t me rn rdeltas st di of
        Inl e \<Rightarrow> Inl e
      | Inr st' \<Rightarrow> inline_dims_loop dis pass t me rn rdeltas st')"

text \<open>
  The body of the loop over all ranks, for rank \<open>rn\<close>. In the second pass a rank at distance
  at most 1 in every dim is stored as a neighbour (myself included) under its offsets
  \<open>rdeltas + 1\<close>, with its Manhattan distance.
\<close>

definition visit_rank ::
  "nat \<Rightarrow> rank_tables \<Rightarrow> nat \<Rightarrow> nat \<Rightarrow> rank_pass_state \<Rightarrow> nat \<Rightarrow> yask_exception + rank_pass_state" where
  "visit_rank pass t me n st rn =
     (let rdeltas = rank_deltas t me rn n;
          mandist = man_dist rdeltas;
          maxdist = max_dist rdeltas
      in if rn = me \<and> mandist \<noteq> 0 then Inl (Own_distance_nonzero mandist)
         else if rn \<noteq> me \<and> mandist = 0 then Inl (Ranks_at_same_coords me rn)
         else case inline_dims_loop [0..<n] pass t me rn rdeltas st of
                Inl e \<Rightarrow> Inl e
              | Inr st' \<Rightarrow>
                  Inr (if pass = 1 \<and> maxdist \<le> 1
                       then st'\<lparr>num_neighbors := (if rn = me then num_neighbors st'
                                                    else num_neighbors st' + 1),
                                my_neighbors := my_neighbors st' @ [(map (\<lambda>d. d + 1) rdeltas, rn, mandist)]\<rparr>
                       else st'))"

fun ranks_loop ::
  "nat list \<Rightarrow> nat \<Rightarrow> rank_tables \<Rightarrow> nat \<Rightarrow> nat \<Rightarrow> rank_pass_state
     \<Rightarrow> yask_exception + rank_pass_state" where
  "ranks_loop [] pass t me n st = Inr st"
| "ranks_loop (rn # rns) pass t me n st =
     (case visit_rank pass t me n st rn of
        Inl e \<Rightarrow> Inl e
      | Inr st' \<Rightarrow> ranks_loop rns pass t me n st')"

text \<open>
  One pass on rank \<open>me\<close> of \<open>nr\<close> ranks in \<open>n\<close> domain dims: the sums start at zero, the
  offsets are those the rank has so far.
\<close>

definition rank_pass ::
  "nat \<Rightarrow> rank_tables \<Rightarrow> nat \<Rightarrow> nat \<Rightarrow> nat \<Rightarrow> idx_t list \<Rightarrow> yask_exception + rank_pass_state" where
  "rank_pass pass t me nr n offsets =
     ranks_loop [0..<nr] pass t me n
       \<lparr>rank_domain_sums = replicate n 0, rank_domain_offsets = offsets,
        num_neighbors = 0, my_neighbors = []\<rparr>"

text \<open>
  Two ranks side by side in the first of two dims, 8 by 8 and 8 by 6 points: they are
  in-line in the first dim and their sizes differ in the second.
\<close>

definition unaligned_tables :: rank_tables where
  "unaligned_tables = \<lparr>coords = [[0, 0], [1, 0]], rsizes = [[8, 8], [8, 6]]\<rparr>"

section \<open>Variables and their dirty flags\<close>

text \<open>
  What the halo exchange and \<^verbatim>\<open>update_vars\<close> read and write of a variable. A variable that
  uses the step dim holds \<open>step_alloc_size\<close> live steps, from \<open>first_valid_step\<close>; the flag of
  step \<open>t\<close> is kept at \<open>t mod step_alloc_size\<close>.
\<close>

record yk_var =
  var_name :: string
  is_scratch :: bool
  uses_step_dim :: bool
  step_alloc_size :: idx_t
  first_valid_step :: idx_t
  dirty_steps :: "bool list"

definition last_valid_step :: "yk_var \<Rightarrow> idx_t" where
  "last_valid_step v = first_valid_step v + step_alloc_size v - 1"


text \<open>
  Modelled from the spec: \<^verbatim>\<open>is_dirty\<close>, \<^verbatim>\<open>set_dirty\<close> and \<^verbatim>\<open>update_valid_step\<close> are methods of the
  variable store, which is not under the sources. The spec gives them as (section 4.2)
  ``Dirty map: a per-live-step boolean \<^verbatim>\<open>dirty[t mod alloc_size]\<close>; \<^verbatim>\<open>update_valid_step(t)\<close>
  advances the window and clears flags that fall out; \<^verbatim>\<open>set_dirty(true, t)\<close> on any write that
  may cross a halo'', and (section 3) ``writing to any step t updates the valid-step window
  to \<^verbatim>\<open>[t - alloc_size + 1, t]\<close>''. A variable without the step dim has the one flag of
  step 0 and no window.
\<close>

definition dirty_slot :: "yk_var \<Rightarrow> idx_t \<Rightarrow> nat" where
  "dirty_slot v t = (if uses_step_dim v then nat (t mod step_alloc_size v) else 0)"

definition is_dirty :: "yk_var \<Rightarrow> idx_t \<Rightarrow> bool" where
  "is_dirty v t = dirty_steps v ! dirty_slot v t"

definition set_dirty :: "yk_var \<Rightarrow> bool \<Rightarrow> idx_t \<Rightarrow> yk_var" where
  "set_dirty v dirty t = v\<lparr>dirty_steps := (dirty_steps v)[dirty_slot v t := dirty]\<rparr>"

definition update_valid_step :: "yk_var \<Rightarrow> idx_t \<Rightarrow> yk_var" where
  "update_valid_step v t =
     (if uses_step_dim v
      then (let new_first = t - step_alloc_size v + 1;
                fall_out = filter (\<lambda>s. \<not> (new_first \<le> s \<and> s \<le> t))
                             [first_valid_step v..last_valid_step v]
            in v\<lparr>first_valid_step := new_first,
                 dirty_steps := foldl (\<lambda>d s. d[dirty_slot v s := False]) (dirty_steps v) fall_out\<rparr>)
      else v)"

section \<open>update\_vars (context.cpp)\<close>

text \<open>
  A bundle as \<^verbatim>\<open>update_vars\<close> sees it: its output step for an input step, if any
  (\<^verbatim>\<open>get_output_step_index\<close>), and its output variables. A pointer to a variable is its
  position in the list of the context's variables. A pack is a list of bundles.
\<close>

record stencil_bundle =
  get_output_step_index :: "idx_t \<Rightarrow> idx_t option"
  outputVarPtrs :: "nat list"

type_synonym bundle_pack = "stencil_bundle list"

text \<open>The steps of \<^verbatim>\<open>for (idx_t t = start; t != stop; t += stride)\<close> with \<open>stride\<close> 1 or -1
  toward \<open>stop\<close>.\<close>

definition step_range :: "idx_t \<Rightarrow> idx_t \<Rightarrow> idx_t list" where
  "step_range start stop = (if start > stop then rev [stop + 1..start] else [start..stop - 1])"

text \<open>
  The state of the loops of \<^verbatim>\<open>update_vars\<close>: the variables and \<^verbatim>\<open>vars_done\<close>, the set of
  (variable, output step) pairs already updated.
\<close>

type_synonym vars_state = "yk_var list \<times> (nat \<times> idx_t) set"

definition update_output_var :: "bool \<Rightarrow> idx_t \<Rightarrow> vars_state \<Rightarrow> nat \<Rightarrow> vars_state" where
  "update_output_var mark_dirty t_out vs gp =
     (if (gp, t_out) \<notin> snd vs
      then (let gb = update_valid_step (fst vs ! gp) t_out;
                gb' = (if mark_dirty then set_dirty gb True t_out else gb)
            in ((fst vs)[gp := gb'], insert (gp, t_out) (snd vs)))
      else vs)"

definition update_bundle :: "bool \<Rightarrow> idx_t \<Rightarrow> vars_state \<Rightarrow> stencil_bundle \<Rightarrow> vars_state" where
  "update_bundle mark_dirty t vs sb =
     (case get_output_step_index sb t of
        None \<Rightarrow> vs
      | Some t_out \<Rightarrow> foldl (update_output_var mark_dirty t_out) vs (outputVarPtrs sb))"

definition update_pack :: "bool \<Rightarrow> idx_t \<Rightarrow> idx_t \<Rightarrow> vars_state \<Rightarrow> bundle_pack \<Rightarrow> vars_state" where
  "update_pack mark_dirty start stop vs bp =
     foldl (\<lambda>vs t. foldl (update_bundle mark_dirty t) vs bp) vs (step_range start stop)"

text \<open>
  \<open>sel_bp\<close> is the position of the selected pack in \<open>stPacks\<close>, or \<open>None\<close> for a null pointer
  (all packs).
\<close>

definition update_vars ::
  "bundle_pack list \<Rightarrow> nat option \<Rightarrow> idx_t \<Rightarrow> idx_t \<Rightarrow> bool \<Rightarrow> yk_var list \<Rightarrow> yk_var list" where
  "update_vars stPacks sel_bp start stop mark_dirty vars =
     fst (foldl (\<lambda>vs k. if sel_bp \<noteq> None \<and> sel_bp \<noteq> Some k then vs
                          else update_pack mark_dirty start stop vs (stPacks ! k))
            (vars, {}) [0..<length stPacks])"

section \<open>exchange\_halos (context.cpp)\<close>

text \<open>
  A map ordered by name (\<^verbatim>\<open>std::map<std::string, ...>\<close>) is a list of pairs with increasing
  keys; \<open>omap_update\<close> is \<^verbatim>\<open>m[k] = v\<close>. Iteration follows the list.
\<close>

fun omap_update :: "string \<Rightarrow> 'v \<Rightarrow> (string \<times> 'v) list \<Rightarrow> (string \<times> 'v) list" where
  "omap_update k v [] = [(k, v)]"
| "omap_update k v ((k', v') # m) =
     (if k < k' then (k, v) # (k', v') # m
      else if k = k' then (k, v) # m
      else (k', v') # omap_update k v m)"

text \<open>
  The MPI data of a variable for one neighbour, as visited by \<^verbatim>\<open>visitNeighbors\<close>: the
  neighbour's rank, its index \<open>ni\<close>, the sizes of the send and receive buffers, and whether
  the neighbour is in the shared-memory group.
\<close>

record mpi_bufs =
  neighbor_rank :: int
  neighbor_index :: nat
  send_bytes :: nat
  recv_bytes :: nat
  in_shm_group :: bool

text \<open>The calls that the exchange makes, in order.\<close>

datatype halo_call =
    MPI_Irecv string int int
  | MPI_Isend string int int
  | Shm_wait_write string int
  | Shm_mark_write_done string int
  | Pack_send_buf string int idx_t idx_t
  | Shm_wait_read string int
  | MPI_Wait_recv string int
  | Unpack_recv_buf string int idx_t idx_t
  | Shm_mark_read_done string int
  | MPI_Wait_send string int

datatype halo_step = halo_irecv | halo_pack_isend | halo_unpack | halo_final

record halo_context =
  use_mpi :: bool
  enable_halo_exchange :: bool
  env_num_ranks :: int
  use_shm :: bool
  hc_do_mpi_interior :: bool
  hc_do_mpi_left :: bool
  hc_do_mpi_right :: bool
  varPtrs :: "yk_var list"
  mpiData :: "(string \<times> mpi_bufs list) list"

text \<open>
  The first loop: the variables to swap, ordered by name, and their first and last dirty
  steps. \<open>swap_steps\<close> lists the allocated step indices that are checked for a variable.
\<close>

definition swap_steps :: "yk_var \<Rightarrow> idx_t list" where
  "swap_steps gp = (if uses_step_dim gp then [first_valid_step gp..last_valid_step gp] else [0])"

record swap_state =
  varsToSwap :: "(string \<times> nat) list"
  firstStepsToSwap :: "nat \<rightharpoonup> idx_t"
  lastStepsToSwap :: "nat \<rightharpoonup> idx_t"

definition note_dirty_step :: "yk_var \<Rightarrow> nat \<Rightarrow> swap_state \<Rightarrow> idx_t \<Rightarrow> swap_state" where
  "note_dirty_step gb gp sw t =
     (if \<not> is_dirty gb t then sw
      else sw\<lparr>varsToSwap := omap_update (var_name gb) gp (varsToSwap sw),
               firstStepsToSwap :=
                 (if firstStepsToSwap sw gp = None \<or> t < the (firstStepsToSwap sw gp)
                  then (firstStepsToSwap sw)(gp \<mapsto> t) else firstStepsToSwap sw),
               lastStepsToSwap :=
                 (if lastStepsToSwap sw gp = None \<or> t > the (lastStepsToSwap sw gp)
                  then (lastStepsToSwap sw)(gp \<mapsto> t) else lastStepsToSwap sw)\<rparr>)"

definition note_var :: "halo_context \<Rightarrow> swap_state \<Rightarrow> nat \<Rightarrow> swap_state" where
  "note_var c sw gp =
     (let gb = varPtrs c ! gp
      in if is_scratch gb then sw
         else if map_of (mpiData c) (var_name gb) = None then sw
         else foldl (note_dirty_step gb gp) sw (swap_steps gb))"

definition vars_to_swap :: "halo_context \<Rightarrow> swap_state" where
  "vars_to_swap c =
     foldl (note_var c) \<lparr>varsToSwap = [], firstStepsToSwap = Map.empty, lastStepsToSwap = Map.empty\<rparr>
       [0..<length (varPtrs c)]"

text \<open>``Flags indicate what part of vars were most recently calc'd. These determine what
  exchange steps need to be done now.''\<close>

definition steps_to_do :: "halo_context \<Rightarrow> swap_state \<Rightarrow> halo_step list" where
  "steps_to_do c sw =
     (if varsToSwap sw \<noteq> []
      then (if hc_do_mpi_left c \<or> hc_do_mpi_right c then [halo_irecv, halo_pack_isend] else [])
           @ (if hc_do_mpi_interior c then [halo_unpack, halo_final] else [])
      else [])"

text \<open>
  ``Mark vars as up-to-date when done'': the loop over the swapped steps of variable \<open>gp\<close>.
\<close>

definition mark_clean :: "swap_state \<Rightarrow> nat \<Rightarrow> yk_var \<Rightarrow> yk_var" where
  "mark_clean sw gp gb =
     foldl (\<lambda>gb si. if is_dirty gb si then set_dirty gb False si else gb) gb
       [the (firstStepsToSwap sw gp)..the (lastStepsToSwap sw gp)]"

text \<open>
  The visitor of \<^verbatim>\<open>visitNeighbors\<close> for exchange step \<open>hs\<close>, variable \<open>gp\<close> named \<open>gname\<close> with
  tag \<open>gi\<close>, and one neighbour. The state is the variables and the calls made so far.
\<close>

definition visit_neighbor ::
  "halo_context \<Rightarrow> swap_state \<Rightarrow> halo_step \<Rightarrow> int \<Rightarrow> string \<Rightarrow> nat
     \<Rightarrow> yk_var list \<times> halo_call list \<Rightarrow> mpi_bufs \<Rightarrow> yk_var list \<times> halo_call list" where
  "visit_neighbor c sw hs gi gname gp st bufs =
     (let vars = fst st;
          calls = snd st;
          nr = neighbor_rank bufs;
          using_shm = (use_shm c \<and> in_shm_group bufs);
          first = the (firstStepsToSwap sw gp);
          last = the (lastStepsToSwap sw gp)
      in case hs of
           halo_irecv \<Rightarrow>
             (if recv_bytes bufs \<noteq> 0 \<and> \<not> using_shm
              then (vars, calls @ [MPI_Irecv gname nr gi]) else st)
         | halo_pack_isend \<Rightarrow>
             (if send_bytes bufs \<noteq> 0
              then (vars, calls @ (if using_shm then [Shm_wait_write gname nr] else [])
                            @ [Pack_send_buf gname nr first last]
                            @ (if using_shm then [Shm_mark_write_done gname nr]
                               else [MPI_Isend gname nr gi]))
              else st)
         | halo_unpack \<Rightarrow>
             (if recv_bytes bufs \<noteq> 0
              then (vars, calls @ (if using_shm then [Shm_wait_read gname nr] else [MPI_Wait_recv gname nr])
                            @ [Unpack_recv_buf gname nr first last]
                            @ (if using_shm then [Shm_mark_read_done gname nr] else []))
              else st)
         | halo_final \<Rightarrow>
             (vars[gp := mark_clean sw gp (vars ! gp)],
              calls @ (if send_bytes bufs \<noteq> 0 \<and> \<not> using_shm then [MPI_Wait_send gname nr] else [])))"

text \<open>
  ``Loop thru all vars to swap. Use 'gi' as an MPI tag'': \<^verbatim>\<open>gi\<close> starts at 0 and is incremented
  at the start of the body, for each variable of \<open>varsToSwap\<close> in the order of the names.
\<close>

fun swap_vars_loop ::
  "halo_context \<Rightarrow> swap_state \<Rightarrow> halo_step \<Rightarrow> int \<Rightarrow> (string \<times> nat) list
     \<Rightarrow> yk_var list \<times> halo_call list \<Rightarrow> yk_var list \<times> halo_call list" where
  "swap_vars_loop c sw hs gi [] st = st"
| "swap_vars_loop c sw hs gi ((gname, gp) # rest) st =
     swap_vars_loop c sw hs (gi + 1) rest
       (foldl (visit_neighbor c sw hs (gi + 1) gname gp) st (the (map_of (mpiData c) gname)))"

definition exchange_halos :: "halo_context \<Rightarrow> halo_context \<times> halo_call list" where
  "exchange_halos c =
     (if \<not> use_mpi c then (c, [])
      else if \<not> enable_halo_exchange c \<or> env_num_ranks c < 2 then (c, [])
      else (let sw = vars_to_swap c;
                st = foldl (\<lambda>st hs. swap_vars_loop c sw hs 0 (varsToSwap sw) st)
                       (varPtrs c, []) (steps_to_do c sw)
            in (c\<lparr>varPtrs := fst st\<rparr>, snd st)))"

text \<open>
  The variables that a call of \<^verbatim>\<open>exchange_halos\<close> swaps are those that are not scratch, have
  MPI buffers and have a dirty step among their allocated steps; \<open>swap_names\<close> is the set of
  their names.
\<close>

definition needs_swap :: "halo_context \<Rightarrow> yk_var \<Rightarrow> bool" where
  "needs_swap c gb \<longleftrightarrow> \<not> is_scratch gb \<and> map_of (mpiData c) (var_name gb) \<noteq> None
     \<and> (\<exists>t \<in> set (swap_steps gb). is_dirty gb t)"

definition swap_names :: "halo_context \<Rightarrow> string set" where
  "swap_names c = {var_name gb | gb. gb \<in> set (varPtrs c) \<and> needs_swap c gb}"

text \<open>The 1-based position of a name among the names of a set, in increasing order.\<close>

definition name_ordinal :: "string set \<Rightarrow> string \<Rightarrow> int" where
  "name_ordinal S n = 1 + int (card {m \<in> S. m < n})"

text \<open>The variable and the tag of an \<^verbatim>\<open>MPI_Irecv\<close> or \<^verbatim>\<open>MPI_Isend\<close> call.\<close>

fun call_tag :: "halo_call \<Rightarrow> (string \<times> int) option" where
  "call_tag (MPI_Irecv n r tag) = Some (n, tag)"
| "call_tag (MPI_Isend n r tag) = Some (n, tag)"
| "call_tag other = None"

text \<open>
  An example of three variables \<open>a\<close>, \<open>b\<close>, \<open>c\<close> on a rank with one neighbour, rank 1, each
  with one allocated step and buffers of 8 bytes; \<open>dirty\<close> gives the flag of each.
\<close>

definition three_vars :: "bool \<Rightarrow> bool \<Rightarrow> bool \<Rightarrow> halo_context" where
  "three_vars da db dc =
     \<lparr>use_mpi = True, enable_halo_exchange = True, env_num_ranks = 2, use_shm = False,
      hc_do_mpi_interior = True, hc_do_mpi_left = True, hc_do_mpi_right = True,
      varPtrs =
        [\<lparr>var_name = ''a'', is_scratch = False, uses_step_dim = True, step_alloc_size = 1,
          first_valid_step = 0, dirty_steps = [da]\<rparr>,
         \<lparr>var_name = ''b'', is_scratch = False, uses_step_dim = True, step_alloc_size = 1,
          first_valid_step = 0, dirty_steps = [db]\<rparr>,
         \<lparr>var_name = ''c'', is_scratch = False, uses_step_dim = True, step_alloc_size = 1,
          first_valid_step = 0, dirty_steps = [dc]\<rparr>],
      mpiData =
        [(''a'', [\<lparr>neighbor_rank = 1, neighbor_index = 0, send_bytes = 8, recv_bytes = 8,
                   in_shm_group = False\<rparr>]),
         (''b'', [\<lparr>neighbor_rank = 1, neighbor_index = 0, send_bytes = 8, recv_bytes = 8,
                   in_shm_group = False\<rparr>]),
         (''c'', [\<lparr>neighbor_rank = 1, neighbor_index = 0, send_bytes = 8, recv_bytes = 8,
                   in_shm_group = False\<rparr>])]\<rparr>"

section \<open>Dirty flags under update\_vars\<close>






text \<open>
  A variable with two allocated steps, 0 and 1, step 1 dirty; and a pack of one bundle that
  writes it at \<open>t + 1\<close>.
\<close>

definition one_var :: "yk_var list" where
  "one_var = [\<lparr>var_name = ''u'', is_scratch = False, uses_step_dim = True, step_alloc_size = 2,
               first_valid_step = 0, dirty_steps = [False, True]\<rparr>]"

definition one_pack :: "bundle_pack list" where
  "one_pack = [[\<lparr>get_output_step_index = (\<lambda>t. Some (t + 1)), outputVarPtrs = [0]\<rparr>]]"

section \<open>run\_solution (context.cpp)\<close>

text \<open>
  What \<^verbatim>\<open>run_solution\<close> reads of a bundle pack: its step condition (\<^verbatim>\<open>is_in_valid_step\<close>) and
  the count of the steps done in it (\<^verbatim>\<open>add_steps\<close>).
\<close>

record pack_info =
  is_in_valid_step :: "idx_t \<Rightarrow> bool"
  pack_steps_done :: idx_t

text \<open>
  The calls that \<^verbatim>\<open>run_solution\<close> makes, in order. \<open>Rank_loops\<close> is the inclusion of the
  generated rank loops (\<^verbatim>\<open>yask_rank_loops.hpp\<close>), which call \<^verbatim>\<open>calc_region\<close> over the rank: it
  carries the selected pack (\<open>None\<close> for all packs), the begin, end and stride of
  \<^verbatim>\<open>rank_idxs\<close>, the step range, and the flags \<^verbatim>\<open>do_mpi_interior\<close>, \<^verbatim>\<open>do_mpi_left\<close>,
  \<^verbatim>\<open>do_mpi_right\<close> and \<^verbatim>\<open>mpi_exterior_dim\<close> at the call.
\<close>

datatype run_event =
    Before_hook nat idx_t idx_t
  | After_hook nat idx_t idx_t
  | Set_region_threads
  | Exchange_halos bool bool bool
  | Rank_loops "nat option" "idx_t list" "idx_t list" "idx_t list" idx_t idx_t bool bool bool idx_t
  | Update_vars "nat option" idx_t idx_t bool
  | Eval_auto_tuner idx_t

text \<open>
  The state of \<^verbatim>\<open>run_solution\<close>. \<open>prepared\<close> is the value of \<^verbatim>\<open>is_prepared()\<close>, which is
  declared outside the sources; \<open>mpi_interior_valid\<close> is \<^verbatim>\<open>mpi_interior.bb_valid\<close>. A hook is user code that is
  given the solution; it is a function on the state here.
\<close>

record run_context =
  ctx :: stencil_context
  prepared :: bool
  ext_bb :: bounding_box
  ext_bb_size :: idx_t
  stPacks_info :: "pack_info list"
  check_step_conds :: bool
  mpi_interior_valid :: bool
  mpi :: mpi_section
  steps_done :: idx_t
  run_trace :: "run_event list"

type_synonym hook_fn = "run_context \<Rightarrow> idx_t \<Rightarrow> idx_t \<Rightarrow> run_context"

definition emit :: "run_event \<Rightarrow> run_context \<Rightarrow> run_context" where
  "emit ev c = c\<lparr>run_trace := run_trace c @ [ev]\<rparr>"

definition call_2idx_hooks ::
  "(nat \<Rightarrow> idx_t \<Rightarrow> idx_t \<Rightarrow> run_event) \<Rightarrow> hook_fn list \<Rightarrow> idx_t \<Rightarrow> idx_t
     \<Rightarrow> run_context \<Rightarrow> run_context" where
  "call_2idx_hooks mk hooks first_step_index last_step_index c =
     foldl (\<lambda>c k. (hooks ! k) (emit (mk k first_step_index last_step_index) c)
                      first_step_index last_step_index)
       c [0..<length hooks]"

text \<open>The adjustment of \<open>end\<close> for the wave-front shifts and the choice of the strides.\<close>

definition adjust_end :: "stencil_context \<Rightarrow> idx_t list \<Rightarrow> idx_t list" where
  "adjust_end c r_end =
     (if wf_steps c > 0
      then foldl (\<lambda>e j. if right_wf_exts c ! j = 0
                          then e[j + 1 := e ! (j + 1) + wf_shift_pts c ! j] else e)
             r_end [0..<nddims c]
      else r_end)"

definition one_stride :: "stencil_context \<Rightarrow> idx_t list \<Rightarrow> idx_t list \<Rightarrow> idx_t list \<Rightarrow> idx_t list"
  where
  "one_stride c r_begin r_end stride =
     foldl (\<lambda>s j. if region_sizes (opts c) ! (j + 1) \<ge> rank_sizes (opts c) ! (j + 1)
                    then s[j + 1 := r_end ! (j + 1) - r_begin ! (j + 1)] else s)
       stride [0..<nddims c]"

text \<open>
  The calculation of the MPI exterior of a step range (the code without
  \<^verbatim>\<open>OVERLAP_WITH_BLOCKS\<close>): the rank loops once for each existing exterior, left then right
  in each domain dim, then the update of the variables and the halo exchange.
\<close>

definition calc_exterior ::
  "nat option \<Rightarrow> idx_t list \<Rightarrow> idx_t list \<Rightarrow> idx_t list \<Rightarrow> idx_t \<Rightarrow> idx_t
     \<Rightarrow> run_context \<Rightarrow> run_context" where
  "calc_exterior bp r_begin r_end stride start_t stop_t c0 =
     (let c1 = c0\<lparr>mpi := (mpi c0)\<lparr>do_mpi_interior := False, mpi_exterior_dim := 0\<rparr>\<rparr>;
          c2 = foldl (\<lambda>c (j, is_left).
                   if \<not> does_exterior_exist (mpi c) j is_left then c
                   else emit (Rank_loops bp r_begin r_end stride start_t stop_t
                                (do_mpi_interior (mpi c)) is_left (\<not> is_left) (int j))
                          (c\<lparr>mpi := (mpi c)\<lparr>do_mpi_left := is_left, do_mpi_right := \<not> is_left,
                                             mpi_exterior_dim := int j\<rparr>\<rparr>))
                 c1 (concat (map (\<lambda>j. [(j, True), (j, False)]) [0..<nddims (ctx c0)]));
          c3 = emit (Update_vars bp start_t stop_t True) c2;
          c4 = emit (Exchange_halos (do_mpi_interior (mpi c3)) True True)
                 (c3\<lparr>mpi := (mpi c3)\<lparr>do_mpi_left := True, do_mpi_right := True\<rparr>\<rparr>)
      in c4\<lparr>mpi := (mpi c4)\<lparr>do_mpi_left := False, do_mpi_right := False,
                             do_mpi_interior := True\<rparr>\<rparr>)"

text \<open>The rest of the calculation of a step range: the interior, or the whole rank.\<close>

definition calc_rest ::
  "nat option \<Rightarrow> idx_t list \<Rightarrow> idx_t list \<Rightarrow> idx_t list \<Rightarrow> idx_t \<Rightarrow> idx_t
     \<Rightarrow> run_context \<Rightarrow> run_context" where
  "calc_rest bp r_begin r_end stride start_t stop_t c0 =
     (let c1 = emit (Rank_loops bp r_begin r_end stride start_t stop_t
                       (do_mpi_interior (mpi c0)) (do_mpi_left (mpi c0)) (do_mpi_right (mpi c0))
                       (mpi_exterior_dim (mpi c0))) c0;
          mark_dirty = (do_mpi_left (mpi c1) \<or> do_mpi_right (mpi c1));
          c2 = emit (Update_vars bp start_t stop_t mark_dirty) c1;
          c3 = emit (Exchange_halos (do_mpi_interior (mpi c2)) (do_mpi_left (mpi c2))
                       (do_mpi_right (mpi c2))) c2
      in c3\<lparr>mpi := (mpi c3)\<lparr>do_mpi_interior := True, do_mpi_left := True,
                             do_mpi_right := True\<rparr>\<rparr>)"

definition calc_range ::
  "nat option \<Rightarrow> idx_t list \<Rightarrow> idx_t list \<Rightarrow> idx_t list \<Rightarrow> idx_t \<Rightarrow> idx_t
     \<Rightarrow> run_context \<Rightarrow> run_context" where
  "calc_range bp r_begin r_end stride start_t stop_t c =
     calc_rest bp r_begin r_end stride start_t stop_t
       (if mpi_interior_valid c
        then calc_exterior bp r_begin r_end stride start_t stop_t c else c)"

text \<open>The count of the steps of each pack after a step range.\<close>

definition add_pack_steps :: "idx_t \<Rightarrow> idx_t \<Rightarrow> idx_t \<Rightarrow> run_context \<Rightarrow> run_context" where
  "add_pack_steps start_t stop_t this_num_t c =
     c\<lparr>stPacks_info :=
         map (\<lambda>bp. bp\<lparr>pack_steps_done := pack_steps_done bp +
                      (if \<not> check_step_conds c then this_num_t
                       else int (length (filter (is_in_valid_step bp)
                                           (step_range start_t stop_t))))\<rparr>)
           (stPacks_info c)\<rparr>"

text \<open>One iteration of the step loop of \<^verbatim>\<open>run_solution\<close>.\<close>

definition run_step ::
  "idx_t list \<Rightarrow> idx_t list \<Rightarrow> idx_t list \<Rightarrow> idx_t \<Rightarrow> idx_t \<Rightarrow> idx_t
     \<Rightarrow> run_context \<Rightarrow> idx_t \<Rightarrow> run_context" where
  "run_step r_begin r_end stride begin_t end_t stride_t c0 index_t =
     (let start_t = begin_t + index_t * stride_t;
          stop_t = (if stride_t > 0 then min (start_t + stride_t) end_t
                    else max (start_t + stride_t) end_t);
          this_num_t = \<bar>stop_t - start_t\<bar>;
          c1 = (if wf_steps (ctx c0) = 0
                then foldl (\<lambda>c k.
                        if check_step_conds c \<and> \<not> is_in_valid_step (stPacks_info c ! k) start_t
                        then c
                        else calc_range (Some k) r_begin r_end stride start_t stop_t c)
                      c0 [0..<length (stPacks_info c0)]
                else calc_range None r_begin r_end stride start_t stop_t c0);
          c2 = c1\<lparr>steps_done := steps_done c1 + this_num_t\<rparr>;
          c3 = add_pack_steps start_t stop_t this_num_t c2
      in emit (Eval_auto_tuner this_num_t) c3)"

text \<open>
  \<^verbatim>\<open>run_solution\<close>. The result is the exception thrown, or nothing, together with the state
  at the return or at the throw, which holds the calls made until then.
\<close>

definition run_solution ::
  "hook_fn list \<Rightarrow> hook_fn list \<Rightarrow> run_context \<Rightarrow> idx_t \<Rightarrow> idx_t
     \<Rightarrow> (yask_exception + unit) \<times> run_context" where
  "run_solution before_hooks after_hooks c0 first_step_index last_step_index =
     (let c1 = call_2idx_hooks Before_hook before_hooks first_step_index last_step_index c0;
          step_dir = (if last_step_index \<ge> first_step_index then 1 else - 1);
          begin_t = first_step_index;
          stride_t = max (wf_steps (ctx c1)) 1 * step_dir;
          end_t = last_step_index + step_dir;
          r_begin = begin_t # bb_begin (ext_bb c1);
          r_end = end_t # bb_end (ext_bb c1);
          stride = (region_sizes (opts (ctx c1)))[0 := stride_t]
      in if \<not> prepared c1 then (Inl Run_without_prepare, c1)
         else if ext_bb_size c1 < 1 then (Inr (), c1)
         else
           (let end' = adjust_end (ctx c1) r_end;
                stride2 = one_stride (ctx c1) r_begin end' stride;
                c2 = emit Set_region_threads c1;
                c3 = emit (Exchange_halos (do_mpi_interior (mpi c2)) (do_mpi_left (mpi c2))
                             (do_mpi_right (mpi c2))) c2;
                num_t = CEIL_DIV \<bar>end_t - begin_t\<bar> \<bar>stride_t\<bar>;
                c4 = foldl (run_step r_begin end' stride2 begin_t end_t stride_t) c3 [0..num_t - 1]
            in (Inr (), call_2idx_hooks After_hook after_hooks
                          first_step_index last_step_index c4)))"

text \<open>Whether an event is a stencil computation or an update of the variables.\<close>

fun is_computation :: "run_event \<Rightarrow> bool" where
  "is_computation (Rank_loops bp b e s t0 t1 di dl dr d) = True"
| "is_computation (Update_vars bp t0 t1 md) = True"
| "is_computation (Exchange_halos di dl dr) = True"
| "is_computation ev = False"

definition unprepared_example :: run_context where
  "unprepared_example =
     \<lparr>ctx = wf_example, prepared = False, ext_bb = \<lparr>bb_begin = [0], bb_end = [64]\<rparr>,
      ext_bb_size = 64,
      stPacks_info = [\<lparr>is_in_valid_step = (\<lambda>t. True), pack_steps_done = 0\<rparr>],
      check_step_conds = False, mpi_interior_valid = False, mpi = no_overlap,
      steps_done = 0, run_trace = []\<rparr>"

section \<open>calc\_region and calc\_block: phases and shapes (context.cpp)\<close>

text \<open>
  Modelled from the spec: \<^verbatim>\<open>choose\<close> and \<^verbatim>\<open>combination\<close> are declared in \<^verbatim>\<open>combo.hpp\<close>, which is
  not under the sources. The spec gives ``phase k evaluates all shapes that bridge exactly k
  dim-pairs (\<^verbatim>\<open>C(n,k)\<close> shapes per phase)'', and the comment at the call says ``Get 'shape'th
  combo of 'phase' things from 'nddims''': \<open>choose_fn n k\<close> is the binomial coefficient, and
  \<open>combination n p x\<close> is the \<open>x\<close>-th, counted from 1, of the \<open>p\<close>-element subsets of
  \<open>1 .. n\<close> in lexicographic order, as an increasing list.
\<close>

definition choose_fn :: "nat \<Rightarrow> nat \<Rightarrow> nat" where
  "choose_fn n k = n choose k"

fun subsets_of :: "nat list \<Rightarrow> nat \<Rightarrow> nat list list" where
  "subsets_of xs 0 = [[]]"
| "subsets_of [] (Suc k) = []"
| "subsets_of (x # xs) (Suc k) = map ((#) x) (subsets_of xs k) @ subsets_of xs (Suc k)"

definition dim_numbers :: "nat \<Rightarrow> nat list" where
  "dim_numbers n = [1..<n + 1]"

definition combination :: "nat \<Rightarrow> nat \<Rightarrow> nat \<Rightarrow> nat list" where
  "combination n p x = subsets_of (dim_numbers n) p ! (x - 1)"

text \<open>
  The calls that the temporal-blocking branches make: the inclusion of the generated region
  loops in \<^verbatim>\<open>calc_region\<close>, with the values of \<^verbatim>\<open>nphases\<close>, \<^verbatim>\<open>phase\<close>, \<^verbatim>\<open>region_shift_num\<close>,
  \<^verbatim>\<open>start_t\<close> and \<^verbatim>\<open>stop_t\<close> there, and the inclusion of the generated block loops in
  \<^verbatim>\<open>calc_block\<close>, with the values of \<^verbatim>\<open>phase\<close>, \<^verbatim>\<open>nshapes\<close>, \<^verbatim>\<open>shape\<close> and \<^verbatim>\<open>bridge_mask\<close>.
\<close>

datatype region_call = Region_loops nat nat idx_t idx_t idx_t

datatype block_call = Block_loops nat nat nat "bool list"

text \<open>
  The increments of \<^verbatim>\<open>region_shift_num\<close> after the phases of a time stride: one for each
  pack in each step, the packs not valid at the step left out when step conditions are
  checked. \<open>valid\<close> holds \<^verbatim>\<open>is_in_valid_step\<close> of each pack.
\<close>

definition tb_shifts_done :: "(idx_t \<Rightarrow> bool) list \<Rightarrow> bool \<Rightarrow> idx_t \<Rightarrow> idx_t \<Rightarrow> idx_t" where
  "tb_shifts_done valid check_conds start_t stop_t =
     int (length (concat (map (\<lambda>t. filter (\<lambda>v. \<not> (check_conds \<and> \<not> v t)) valid)
                            (step_range start_t stop_t))))"

text \<open>
  The body of the loop over the packs in \<^verbatim>\<open>calc_region\<close> without temporal blocking, for the
  pack at position \<open>k\<close>: the region loops are run in one phase if \<^verbatim>\<open>shift_region\<close> finds the
  region inside the box of the pack. A pack is given by its \<^verbatim>\<open>is_in_valid_step\<close> and its
  bounding box. The state is \<^verbatim>\<open>region_shift_num\<close> and the calls made.
\<close>

definition calc_region_pack ::
  "stencil_context \<Rightarrow> mpi_section \<Rightarrow> ((idx_t \<Rightarrow> bool) \<times> bounding_box) list \<Rightarrow> bool
     \<Rightarrow> nat option \<Rightarrow> idx_t list \<Rightarrow> idx_t list \<Rightarrow> idx_t \<Rightarrow> idx_t
     \<Rightarrow> idx_t \<times> region_call list \<Rightarrow> nat \<Rightarrow> idx_t \<times> region_call list" where
  "calc_region_pack c m packs check_conds sel_bp rank_start rank_stop start_t stop_t st k =
     (if sel_bp \<noteq> None \<and> sel_bp \<noteq> Some k then st
      else if check_conds \<and> \<not> fst (packs ! k) start_t then st
      else (let ok = fst (shift_region c m rank_start rank_stop (fst st) (Some (snd (packs ! k)))
                            \<lparr>si_begin = rank_start, si_end = rank_stop\<rparr>)
            in (fst st + 1,
                if ok then snd st @ [Region_loops 1 0 (fst st) start_t stop_t] else snd st)))"

text \<open>
  One iteration of the time loop of \<^verbatim>\<open>calc_region\<close>. With temporal blocking (\<open>tb_steps\<close> not
  0) the region loops are run for the phases \<open>0 .. nphases - 1\<close> with
  \<open>nphases = nddims + 1\<close>, each over all the blocks of the region.
\<close>

definition calc_region_stride ::
  "stencil_context \<Rightarrow> mpi_section \<Rightarrow> ((idx_t \<Rightarrow> bool) \<times> bounding_box) list \<Rightarrow> bool
     \<Rightarrow> nat option \<Rightarrow> idx_t list \<Rightarrow> idx_t list \<Rightarrow> idx_t
     \<Rightarrow> idx_t \<times> region_call list \<Rightarrow> idx_t \<Rightarrow> idx_t \<times> region_call list" where
  "calc_region_stride c m packs check_conds sel_bp rank_start rank_stop stride_t st index_t =
     (let begin_t = rank_start ! 0;
          end_t = rank_stop ! 0;
          start_t = begin_t + index_t * stride_t;
          stop_t = (if stride_t > 0 then min (start_t + stride_t) end_t
                    else max (start_t + stride_t) end_t)
      in if tb_steps c = 0
         then foldl (calc_region_pack c m packs check_conds sel_bp rank_start rank_stop
                       start_t stop_t) st [0..<length packs]
         else (let nphases = nddims c + 1
               in (fst st + tb_shifts_done (map fst packs) check_conds start_t stop_t,
                   snd st @ map (\<lambda>phase. Region_loops nphases phase (fst st) start_t stop_t)
                              [0..<nphases])))"

text \<open>\<^verbatim>\<open>calc_region\<close>: the time loop.\<close>

definition calc_region ::
  "stencil_context \<Rightarrow> mpi_section \<Rightarrow> ((idx_t \<Rightarrow> bool) \<times> bounding_box) list \<Rightarrow> bool
     \<Rightarrow> nat option \<Rightarrow> idx_t list \<Rightarrow> idx_t list \<Rightarrow> region_call list" where
  "calc_region c m packs check_conds sel_bp rank_start rank_stop =
     (let begin_t = rank_start ! 0;
          end_t = rank_stop ! 0;
          step_dir = (if end_t \<ge> begin_t then 1 else - 1);
          stride_t = max (tb_steps c) 1 * step_dir;
          num_t = CEIL_DIV \<bar>end_t - begin_t\<bar> \<bar>stride_t\<bar>
      in snd (foldl (calc_region_stride c m packs check_conds sel_bp rank_start rank_stop stride_t)
                (0, []) [0..num_t - 1]))"

text \<open>
  The mask of the dims to bridge: ``Set bits for selected dims'', the dims of the
  combination being numbered from 1.
\<close>

definition set_bridge_mask :: "nat \<Rightarrow> nat list \<Rightarrow> bool list" where
  "set_bridge_mask n dims_to_bridge =
     foldl (\<lambda>m d. m[d - 1 := True]) (replicate n False) dims_to_bridge"

text \<open>
  The shape loop of \<^verbatim>\<open>calc_block\<close> for a phase: with temporal blocking, one inclusion of the
  block loops for each of the \<^verbatim>\<open>choose(nddims, phase)\<close> shapes; without, one with an empty
  mask.
\<close>

definition calc_block_shapes :: "stencil_context \<Rightarrow> nat \<Rightarrow> block_call list" where
  "calc_block_shapes c phase =
     (if tb_steps c = 0 then [Block_loops phase 1 0 []]
      else (let nshapes = choose_fn (nddims c) phase
            in map (\<lambda>shape. Block_loops phase nshapes shape
                               (set_bridge_mask (nddims c)
                                  (combination (nddims c) phase (shape + 1))))
                 [0..<nshapes]))"

fun call_mask :: "block_call \<Rightarrow> bool list" where
  "call_mask (Block_loops phase nshapes shape m) = m"

fun call_phase :: "region_call \<Rightarrow> nat" where
  "call_phase (Region_loops nphases phase shift_num start_t stop_t) = phase"

fun call_steps :: "region_call \<Rightarrow> idx_t \<times> idx_t" where
  "call_steps (Region_loops nphases phase shift_num start_t stop_t) = (start_t, stop_t)"

text \<open>A 3-D context with temporal blocking of 2 steps inside wave-fronts of 4 steps.\<close>

definition tb3_example :: stencil_context where
  "tb3_example =
     \<lparr>nddims = 3, fold_pts = [1, 1, 4], num_packs = 1,
      opts = \<lparr>rank_sizes = [0, 64, 64, 64], region_sizes = [4, 64, 64, 64],
               block_sizes = [2, 16, 16, 16], mini_block_sizes = [0, 16, 16, 16],
               num_ranks = [1, 1, 1], rank_indices = [0, 0, 0], allow_pack_tuners = False\<rparr>,
      gridPtrs = [\<lparr>is_dim_used = [True, True, True], is_user_grid = False,
                   left_halo_size = [1, 1, 1], right_halo_size = [1, 1, 1]\<rparr>],
      max_halos = [1, 1, 1], wf_steps = 4, num_wf_shifts = 3, wf_angles = [0, 0, 0],
      wf_shift_pts = [0, 0, 0], left_wf_exts = [0, 0, 0], right_wf_exts = [0, 0, 0],
      use_pack_tuners = False, tb_steps = 2, num_tb_shifts = 1, tb_angles = [1, 1, 4],
      tb_widths = [10, 10, 16], tb_tops = [8, 8, 8], mb_angles = [0, 0, 0],
      rank_bb = \<lparr>bb_begin = [0, 0, 0], bb_end = [64, 64, 64]\<rparr>\<rparr>"

section \<open>find\_bounding\_box (setup.cpp)\<close>

text \<open>
  \<^verbatim>\<open>update_bb\<close> keeps the lengths and the size of a box with its corners:
  \<^verbatim>\<open>bb_len = bb_end.subElements(bb_begin)\<close>, \<^verbatim>\<open>bb_size = bb_len.product()\<close>.
\<close>

definition bb_len :: "bounding_box \<Rightarrow> idx_t list" where
  "bb_len bb = map2 (\<lambda>e b. e - b) (bb_end bb) (bb_begin bb)"

definition bb_size :: "bounding_box \<Rightarrow> idx_t" where
  "bb_size bb = tuple_product (bb_len bb)"

text \<open>
  Modelled from the spec: \<^verbatim>\<open>BoundingBox::is_in_bb\<close> is declared outside the sources; section 4.1
  of the spec lists it as \<^verbatim>\<open>contains(point)\<close>. A point is in a box when it is at or after the
  begin and before the end in each dim.
\<close>

definition is_in_bb :: "bounding_box \<Rightarrow> idx_t list \<Rightarrow> bool" where
  "is_in_bb bb pt \<longleftrightarrow>
     list_all (\<lambda>j. bb_begin bb ! j \<le> pt ! j \<and> pt ! j < bb_end bb ! j) [0..<length (bb_begin bb)]"

text \<open>\<^verbatim>\<open>addElements\<close> of a point and an offset, and \<^verbatim>\<open>subElements\<close> as a length.\<close>

definition add_ofs :: "idx_t list \<Rightarrow> nat list \<Rightarrow> idx_t list" where
  "add_ofs pt ofs = map2 (\<lambda>x k. x + int k) pt ofs"

definition len_to :: "idx_t list \<Rightarrow> idx_t list \<Rightarrow> nat list" where
  "len_to e b = map2 (\<lambda>x y. nat (x - y)) e b"

text \<open>
  ``Valid point must be in sub-domain and not seen before in this slice'': \<open>valid\<close> is
  \<^verbatim>\<open>is_in_valid_domain\<close> of the bundle, on the domain indices of the point.
\<close>

definition is_new_valid :: "(idx_t list \<Rightarrow> bool) \<Rightarrow> bounding_box list \<Rightarrow> idx_t list \<Rightarrow> bool" where
  "is_new_valid valid cur_bb_list pt \<longleftrightarrow>
     valid pt \<and> \<not> list_ex (\<lambda>bb. is_in_bb bb pt) cur_bb_list"

text \<open>
  The visitor of the scan for the end of a rect. At a point that is not valid it adjusts the
  ``1st dim that is beyond its starting pt'' and stops the scan; \<open>first_beyond\<close> finds that
  dim from the offset of the point. At any other point it keeps looking.
\<close>

definition first_beyond :: "nat list \<Rightarrow> nat option" where
  "first_beyond eofs = find (\<lambda>i. 0 < eofs ! i) [0..<length eofs]"

definition scan_stops ::
  "(idx_t list \<Rightarrow> bool) \<Rightarrow> bounding_box list \<Rightarrow> idx_t list \<Rightarrow> nat list \<Rightarrow> bool" where
  "scan_stops valid cur_bb_list ibdpt eofs \<longleftrightarrow>
     \<not> is_new_valid valid cur_bb_list (add_ofs ibdpt eofs) \<and> first_beyond eofs \<noteq> None"

text \<open>
  One scan of \<open>scan_len\<close> from \<open>ibdpt\<close>: the new \<open>scan_len\<close> and \<open>do_scan\<close>. The scan visits the
  points in the order of \<^verbatim>\<open>visitAllPoints\<close> up to the first one at which the visitor stops.
\<close>

definition scan_once ::
  "bool \<Rightarrow> (idx_t list \<Rightarrow> bool) \<Rightarrow> bounding_box list \<Rightarrow> idx_t list \<Rightarrow> nat list
     \<Rightarrow> nat list \<times> bool" where
  "scan_once first_inner valid cur_bb_list ibdpt scan_len =
     (case find (scan_stops valid cur_bb_list ibdpt) (visit_order first_inner scan_len) of
        None \<Rightarrow> (scan_len, False)
      | Some eofs \<Rightarrow>
          (case first_beyond eofs of
             None \<Rightarrow> (scan_len, False)
           | Some i \<Rightarrow> (scan_len[i := eofs ! i], i < length scan_len - 1)))"

text \<open>``Repeat scan until no adjustment is made.''\<close>

partial_function (option) scan_loop ::
  "bool \<Rightarrow> (idx_t list \<Rightarrow> bool) \<Rightarrow> bounding_box list \<Rightarrow> idx_t list \<Rightarrow> nat list
     \<Rightarrow> nat list option" where
  "scan_loop first_inner valid cur_bb_list ibdpt scan_len =
     (if snd (scan_once first_inner valid cur_bb_list ibdpt scan_len)
      then scan_loop first_inner valid cur_bb_list ibdpt
             (fst (scan_once first_inner valid cur_bb_list ibdpt scan_len))
      else Some (fst (scan_once first_inner valid cur_bb_list ibdpt scan_len)))"

declare scan_loop.simps [code]

text \<open>The new rect that starts at the valid point \<open>ibdpt\<close> of the slice.\<close>

definition new_rect ::
  "bool \<Rightarrow> (idx_t list \<Rightarrow> bool) \<Rightarrow> bounding_box list \<Rightarrow> idx_t list \<Rightarrow> idx_t list
     \<Rightarrow> bounding_box option" where
  "new_rect first_inner valid cur_bb_list slice_end ibdpt =
     map_option (\<lambda>scan_len. \<lparr>bb_begin = ibdpt, bb_end = add_ofs ibdpt scan_len\<rparr>)
       (scan_loop first_inner valid cur_bb_list ibdpt (len_to slice_end ibdpt))"

text \<open>
  The visit of the points of a slice, ``looking for a new valid beginning point'': the state
  is the list of the rects of the slice, \<^verbatim>\<open>cur_bb_list\<close>.
\<close>

fun find_rects ::
  "bool \<Rightarrow> (idx_t list \<Rightarrow> bool) \<Rightarrow> idx_t list \<Rightarrow> idx_t list \<Rightarrow> nat list list
     \<Rightarrow> bounding_box list \<Rightarrow> bounding_box list option" where
  "find_rects first_inner valid slice_begin slice_end [] cur_bb_list = Some cur_bb_list"
| "find_rects first_inner valid slice_begin slice_end (ofs # rest) cur_bb_list =
     (if is_new_valid valid cur_bb_list (add_ofs slice_begin ofs)
      then (case new_rect first_inner valid cur_bb_list slice_end (add_ofs slice_begin ofs) of
              None \<Rightarrow> None
            | Some new_bb \<Rightarrow>
                find_rects first_inner valid slice_begin slice_end rest (cur_bb_list @ [new_bb]))
      else find_rects first_inner valid slice_begin slice_end rest cur_bb_list)"

text \<open>The slice of thread \<open>start\<close> across the outer dim, and its rects.\<close>

definition find_slice ::
  "bool \<Rightarrow> (idx_t list \<Rightarrow> bool) \<Rightarrow> bounding_box \<Rightarrow> idx_t \<Rightarrow> idx_t
     \<Rightarrow> bounding_box list option" where
  "find_slice first_inner valid bundle_bb len_per_thr start =
     (let slice_begin = (bb_begin bundle_bb)[0 := bb_begin bundle_bb ! 0 + start * len_per_thr];
          slice_end = (bb_end bundle_bb)[0 := min (bb_end bundle_bb ! 0)
                                                (slice_begin ! 0 + len_per_thr)]
      in if slice_end ! 0 \<le> slice_begin ! 0 then Some []
         else find_rects first_inner valid slice_begin slice_end
                (visit_order first_inner (len_to slice_end slice_begin)) [])"

text \<open>
  The collection of the rects of the slices: a rect is merged with the first final rect that
  is adjacent to it in the outer dim and aligned with it in the other dims, or added.
\<close>

definition can_merge :: "bounding_box \<Rightarrow> bounding_box \<Rightarrow> bool" where
  "can_merge bb bbn \<longleftrightarrow>
     list_all (\<lambda>i. if i = 0 then bb_end bb ! i = bb_begin bbn ! i
                    else bb_begin bb ! i = bb_begin bbn ! i \<and> bb_end bb ! i = bb_end bbn ! i)
       [0..<length (bb_begin bb)]"

fun merge_into :: "bounding_box list \<Rightarrow> bounding_box \<Rightarrow> bounding_box list option" where
  "merge_into [] bbn = None"
| "merge_into (bb # bbs) bbn =
     (if can_merge bb bbn then Some (bb\<lparr>bb_end := (bb_end bb)[0 := bb_end bbn ! 0]\<rparr> # bbs)
      else map_option ((#) bb) (merge_into bbs bbn))"

definition add_bb :: "bounding_box list \<Rightarrow> bounding_box \<Rightarrow> bounding_box list" where
  "add_bb bb_list bbn =
     (if bb_size bbn = 0 then bb_list
      else (case merge_into bb_list bbn of Some merged \<Rightarrow> merged | None \<Rightarrow> bb_list @ [bbn]))"

text \<open>
  \<^verbatim>\<open>find_bounding_box\<close>: the list \<^verbatim>\<open>_bb_list\<close> of the bundle, or \<open>None\<close> if a scan does not end.
  \<open>bundle_bb\<close> is the extended box of the rank, \<open>is_sub_domain_expr\<close> tells whether the bundle
  has a condition, and \<open>nthreads\<close> is \<^verbatim>\<open>yask_get_num_threads()\<close>; \<^verbatim>\<open>yask_for(0, nthreads, 1, ..)\<close>
  runs the slices \<open>0 .. nthreads - 1\<close>, each on a list of its own. The collection also
  recomputes the overall box \<^verbatim>\<open>_bundle_bb\<close> of the bundle from the rects, which the list
  does not depend on.
\<close>

definition find_bounding_box ::
  "bool \<Rightarrow> (idx_t list \<Rightarrow> bool) \<Rightarrow> bool \<Rightarrow> idx_t \<Rightarrow> bounding_box \<Rightarrow> bounding_box list option"
  where
  "find_bounding_box first_inner valid is_sub_domain_expr nthreads bundle_bb =
     (if bb_size bundle_bb = 0 then Some []
      else if \<not> is_sub_domain_expr then Some [bundle_bb]
      else (let outer_len = bb_len bundle_bb ! 0;
                len_per_thr = CEIL_DIV outer_len nthreads
            in map_option (\<lambda>bb_lists. foldl add_bb [] (concat bb_lists))
                 (those (map (find_slice first_inner valid bundle_bb len_per_thr)
                           [0..nthreads - 1]))))"

text \<open>
  A box of 2 by 2 points in which only the first point is valid, and a box of 4 by 3 points
  with an L-shaped valid part.
\<close>

definition corner_valid :: "idx_t list \<Rightarrow> bool" where
  "corner_valid pt \<longleftrightarrow> pt = [0, 0]"

definition box22 :: bounding_box where
  "box22 = \<lparr>bb_begin = [0, 0], bb_end = [2, 2]\<rparr>"

definition ell_valid :: "idx_t list \<Rightarrow> bool" where
  "ell_valid pt \<longleftrightarrow> pt ! 0 < 2 \<or> pt ! 1 < 1"

definition box43 :: bounding_box where
  "box43 = \<lparr>bb_begin = [0, 0], bb_end = [4, 3]\<rparr>"

text \<open>
  The points of a box, as tuples over the domain dims; a box with a point in it: its corners
  have \<open>n\<close> dims and its begin is before its end in each dim; and two boxes with no common
  point.
\<close>

definition bb_points :: "bounding_box \<Rightarrow> idx_t list set" where
  "bb_points bb = {pt. length pt = length (bb_begin bb) \<and> is_in_bb bb pt}"

definition wf_bb :: "nat \<Rightarrow> bounding_box \<Rightarrow> bool" where
  "wf_bb n bb \<longleftrightarrow>
     length (bb_begin bb) = n \<and> length (bb_end bb) = n
     \<and> list_all (\<lambda>j. bb_begin bb ! j < bb_end bb ! j) [0..<n]"

definition bb_disjoint :: "bounding_box \<Rightarrow> bounding_box \<Rightarrow> bool" where
  "bb_disjoint a b \<longleftrightarrow> bb_points a \<inter> bb_points b = {}"

text \<open>
  The invariant of the list of the rects of a slice from \<open>sb\<close> to \<open>se\<close>: each rect has a point,
  lies in the slice and holds valid points only, and no two rects have a common point.
\<close>

definition bb_within :: "idx_t list \<Rightarrow> idx_t list \<Rightarrow> bounding_box \<Rightarrow> bool" where
  "bb_within sb se bb \<longleftrightarrow>
     list_all (\<lambda>j. sb ! j \<le> bb_begin bb ! j \<and> bb_end bb ! j \<le> se ! j) [0..<length sb]"

definition rects_ok ::
  "(idx_t list \<Rightarrow> bool) \<Rightarrow> idx_t list \<Rightarrow> idx_t list \<Rightarrow> bounding_box list \<Rightarrow> bool" where
  "rects_ok valid sb se cur \<longleftrightarrow>
     (\<forall>bb \<in> set cur. wf_bb (length sb) bb \<and> bb_within sb se bb \<and> (\<forall>pt \<in> bb_points bb. valid pt))
     \<and> sorted_wrt bb_disjoint cur"

section \<open>Dirty flags under update\_vars and exchange\_halos\<close>









section \<open>Facts about yask\_for\<close>

lemma chunks_append: "chunks (xs @ ys) = chunks xs \<union> chunks ys"
  by (auto simp: chunks_def)

lemma chunks_single: "chunks [(s, e, t)] = {s..<e}"
  by (simp add: chunks_def)

lemma for_loop_canonical:
  assumes "0 < stride"
  shows "\<exists>rest. for_loop i end end stride tn acc = Some (acc @ rest)
           \<and> chunks rest = {i..<end}
           \<and> (i < end \<longrightarrow> rest \<noteq> [] \<and> hd rest = (i, min (i + stride) end, tn i))"
proof (induction "nat (end - i)" arbitrary: i acc rule: less_induct)
  case less
  show ?case
  proof (cases "i < end")
    case False
    then have "for_loop i end end stride tn acc = Some (acc @ [])"
      by (subst for_loop.simps) simp
    moreover have "chunks [] = {i..<end}"
      using False by (simp add: chunks_def)
    ultimately show ?thesis using False by blast
  next
    case True
    let ?c = "(i, min (i + stride) end, tn i)"
    have "nat (end - (i + stride)) < nat (end - i)"
      using True assms by linarith
    from less[OF this, of "acc @ [?c]"]
    obtain rest where r: "for_loop (i + stride) end end stride tn (acc @ [?c]) = Some ((acc @ [?c]) @ rest)"
      and c: "chunks rest = {i + stride..<end}"
      by blast
    have "for_loop i end end stride tn acc = Some (acc @ (?c # rest))"
      using True r by (subst for_loop.simps) simp
    moreover have "chunks (?c # rest) = {i..<end}"
    proof -
      have "chunks (?c # rest) = {i..<min (i + stride) end} \<union> {i + stride..<end}"
        using chunks_append[of "[?c]" rest] c by (simp add: chunks_single)
      also have "\<dots> = {i..<end}"
        using True assms by auto
      finally show ?thesis .
    qed
    ultimately show ?thesis using True by force
  qed
qed

lemma yask_for_non_nested:
  assumes "non_nested env" "begin < end"
  shows "yask_for env begin end stride
           = for_loop 0 end end stride (if openmp env then omp_thread_num env else (\<lambda>_. 0)) []"
  using assms by (auto simp: yask_for_def non_nested_def)

text \<open>
  C10. For a call with \<open>0 < begin < end\<close> on the serial path or the non-nested OpenMP path,
  the loop index starts at 0, not at \<open>begin\<close>: with a positive stride the call returns, its
  first visitor invocation has \<open>start = 0\<close>, and the chunks passed to the visitor cover
  exactly \<open>[0, end)\<close>, which is not \<open>[begin, end)\<close>. The invocations do not depend on \<open>begin\<close>
  at all once \<open>begin < end\<close>; when \<open>end \<le> begin\<close> there are none (the emptiness test). On
  any path two values of \<open>begin\<close> below \<open>end\<close> with the same iteration count
  \<open>CEIL_DIV (end - begin) stride\<close> give the same invocations, so the nested path depends on
  \<open>begin\<close> through that count only.
\<close>

theorem yask_for_ignores_begin:
  assumes "0 < begin" "begin < end" "0 < stride" "non_nested env"
  shows "\<exists>v vs. yask_for env begin end stride = Some (v # vs)
              \<and> fst v = 0
              \<and> chunks (v # vs) = {0..<end}
              \<and> chunks (v # vs) \<noteq> {begin..<end}
              \<and> (\<forall>b'. b' < end \<longrightarrow> yask_for env b' end stride = Some (v # vs))
              \<and> (\<forall>b'. end \<le> b' \<longrightarrow> yask_for env b' end stride = Some [])
              \<and> (\<forall>env' b'. b' < end \<and> CEIL_DIV (end - b') stride = CEIL_DIV (end - begin) stride
                    \<longrightarrow> yask_for env' b' end stride = yask_for env' begin end stride)"
proof -
  let ?tn = "if openmp env then omp_thread_num env else (\<lambda>_. 0)"
  have pos: "0 < end" using assms by simp
  from for_loop_canonical[OF assms(3), of 0 "end" ?tn "[]"] pos
  obtain rest where r: "for_loop 0 end end stride ?tn [] = Some rest"
    and c: "chunks rest = {0..<end}"
    and h: "rest \<noteq> []" "hd rest = (0, min (0 + stride) end, ?tn 0)"
    by auto
  from h obtain v vs where vs: "rest = v # vs" "fst v = 0"
    by (cases rest) auto
  have all: "\<forall>b'. b' < end \<longrightarrow> yask_for env b' end stride = Some (v # vs)"
    using yask_for_non_nested[OF assms(4)] r vs by simp
  have "(0::int) \<in> {0..<end}" "(0::int) \<notin> {begin..<end}"
    using assms by auto
  then have ne: "chunks (v # vs) \<noteq> {begin..<end}"
    using c vs by metis
  have empty: "\<forall>b'. end \<le> b' \<longrightarrow> yask_for env b' end stride = Some []"
    by (simp add: yask_for_def)
  have count: "\<forall>env' b'. b' < end \<and> CEIL_DIV (end - b') stride = CEIL_DIV (end - begin) stride
                 \<longrightarrow> yask_for env' b' end stride = yask_for env' begin end stride"
    using assms(2) by (auto simp: yask_for_def Let_def)
  have "yask_for env begin end stride = Some (v # vs)"
    using all assms(2) by simp
  then show ?thesis
    using all ne c vs(2) empty count unfolding vs(1) by (intro exI conjI)
qed

theorem yask_for_ignores_begin_witness:
  "(0::int) < 2 \<and> (2::int) < 5 \<and> non_nested serial_env
   \<and> (\<exists>v vs. yask_for serial_env 2 5 2 = Some (v # vs) \<and> fst v = 0
         \<and> chunks (v # vs) = {0..<5} \<and> chunks (v # vs) \<noteq> {2..<5})"
proof -
  have n: "non_nested serial_env"
    by (simp add: non_nested_def serial_env_def)
  have "(0::int) < 2" "(2::int) < 5" by simp_all
  from yask_for_ignores_begin[OF this(1) this(2) this(1) n]
  obtain v vs where r: "yask_for serial_env 2 5 2 = Some (v # vs)" "fst v = 0"
      "chunks (v # vs) = {0..<5}" "chunks (v # vs) \<noteq> {2..<5}"
    by (elim exE conjE)
  have "\<exists>v vs. yask_for serial_env 2 5 2 = Some (v # vs) \<and> fst v = 0
         \<and> chunks (v # vs) = {0..<5} \<and> chunks (v # vs) \<noteq> {2..<5}"
    by (intro exI conjI) (rule r)+
  then show ?thesis using n by simp
qed

lemma tb_width_dim_frame:
  "tb_angles (tb_width_dim c j) = tb_angles c" "num_tb_shifts (tb_width_dim c j) = num_tb_shifts c"
  "opts (tb_width_dim c j) = opts c" "fold_pts (tb_width_dim c j) = fold_pts c"
  "length (tb_widths (tb_width_dim c j)) = length (tb_widths c)"
  "length (tb_tops (tb_width_dim c j)) = length (tb_tops c)"
  "tb_steps (tb_width_dim c j) = tb_steps c"
  "wf_angles (tb_width_dim c j) = wf_angles c"
  "max_halos (tb_width_dim c j) = max_halos c"
  "nddims (tb_width_dim c j) = nddims c"
  by (simp_all add: tb_width_dim_def Let_def)

lemma tb_width_dim_other:
  "k \<noteq> j \<Longrightarrow> tb_widths (tb_width_dim c j) ! k = tb_widths c ! k"
  "k \<noteq> j \<Longrightarrow> tb_tops (tb_width_dim c j) ! k = tb_tops c ! k"
  by (simp_all add: tb_width_dim_def Let_def)

lemma tb_width_loop_frame:
  "tb_angles (tb_width_loop js c) = tb_angles c \<and> num_tb_shifts (tb_width_loop js c) = num_tb_shifts c
   \<and> opts (tb_width_loop js c) = opts c \<and> fold_pts (tb_width_loop js c) = fold_pts c
   \<and> length (tb_widths (tb_width_loop js c)) = length (tb_widths c)
   \<and> length (tb_tops (tb_width_loop js c)) = length (tb_tops c)
   \<and> tb_steps (tb_width_loop js c) = tb_steps c
   \<and> wf_angles (tb_width_loop js c) = wf_angles c
   \<and> max_halos (tb_width_loop js c) = max_halos c
   \<and> nddims (tb_width_loop js c) = nddims c"
  by (induction js arbitrary: c) (simp_all add: tb_width_dim_frame)

lemma tb_width_loop_other:
  "j \<notin> set js \<Longrightarrow> tb_widths (tb_width_loop js c) ! j = tb_widths c ! j
     \<and> tb_tops (tb_width_loop js c) ! j = tb_tops c ! j"
  by (induction js arbitrary: c) (simp_all add: tb_width_dim_other)

lemma tb_width_dim_at:
  assumes "j < length (tb_widths c)" "j < length (tb_tops c)"
  shows "tb_widths (tb_width_dim c j) ! j
           = (if num_tb_shifts c > 0 \<and> tb_angles c ! j > 0
              then max (ROUND_UP (CEIL_DIV (block_sizes (opts c) ! (j + 1)) 2 + num_tb_shifts c * tb_angles c ! j)
                          (fold_pts c ! j))
                       (fold_pts c ! j + 2 * (num_tb_shifts c * tb_angles c ! j))
              else block_sizes (opts c) ! (j + 1))"
    and "tb_tops (tb_width_dim c j) ! j
           = (if num_tb_shifts c > 0 \<and> tb_angles c ! j > 0
              then max (tb_widths (tb_width_dim c j) ! j - 2 * (num_tb_shifts c * tb_angles c ! j)) 0
              else block_sizes (opts c) ! (j + 1))"
  using assms by (simp_all add: tb_width_dim_def Let_def)

lemma tb_width_loop_at:
  "j \<in> set js \<Longrightarrow> distinct js \<Longrightarrow> j < length (tb_widths c) \<Longrightarrow> j < length (tb_tops c) \<Longrightarrow>
   tb_widths (tb_width_loop js c) ! j = tb_widths (tb_width_dim c j) ! j \<and>
   tb_tops (tb_width_loop js c) ! j = tb_tops (tb_width_dim c j) ! j"
proof (induction js arbitrary: c)
  case Nil
  then show ?case by simp
next
  case (Cons k js)
  show ?case
  proof (cases "k = j")
    case True
    then have "j \<notin> set js" using Cons.prems by simp
    then show ?thesis
      using True tb_width_loop_other[of j js "tb_width_dim c j"] by simp
  next
    case False
    then have j: "j \<in> set js" "distinct js" using Cons.prems by auto
    have l: "j < length (tb_widths (tb_width_dim c k))" "j < length (tb_tops (tb_width_dim c k))"
      using Cons.prems(3,4) by (simp_all add: tb_width_dim_frame)
    have eq: "tb_widths (tb_width_dim (tb_width_dim c k) j) ! j = tb_widths (tb_width_dim c j) ! j"
       "tb_tops (tb_width_dim (tb_width_dim c k) j) ! j = tb_tops (tb_width_dim c j) ! j"
      by (simp_all only: tb_width_dim_at[OF l] tb_width_dim_at[OF Cons.prems(3,4)] tb_width_dim_frame)
    show ?thesis
      using Cons.IH[OF j l] eq by simp
  qed
qed

lemma tb_angle_dim_frame:
  "opts (fst (tb_angle_dim cm j)) = opts (fst cm)" "fold_pts (fst (tb_angle_dim cm j)) = fold_pts (fst cm)"
  "tb_widths (fst (tb_angle_dim cm j)) = tb_widths (fst cm)"
  "tb_tops (fst (tb_angle_dim cm j)) = tb_tops (fst cm)"
  "wf_angles (fst (tb_angle_dim cm j)) = wf_angles (fst cm)"
  "max_halos (fst (tb_angle_dim cm j)) = max_halos (fst cm)"
  "nddims (fst (tb_angle_dim cm j)) = nddims (fst cm)"
  "num_packs (fst (tb_angle_dim cm j)) = num_packs (fst cm)"
  by (simp_all add: tb_angle_dim_def Let_def)

lemma tb_angle_loop_frame:
  "opts (fst (tb_angle_loop js cm)) = opts (fst cm) \<and> fold_pts (fst (tb_angle_loop js cm)) = fold_pts (fst cm)
   \<and> tb_widths (fst (tb_angle_loop js cm)) = tb_widths (fst cm)
   \<and> tb_tops (fst (tb_angle_loop js cm)) = tb_tops (fst cm)
   \<and> wf_angles (fst (tb_angle_loop js cm)) = wf_angles (fst cm)
   \<and> max_halos (fst (tb_angle_loop js cm)) = max_halos (fst cm)
   \<and> nddims (fst (tb_angle_loop js cm)) = nddims (fst cm)
   \<and> num_packs (fst (tb_angle_loop js cm)) = num_packs (fst cm)"
  by (induction js arbitrary: cm) (simp_all add: tb_angle_dim_frame)

lemma tb_stages_frame:
  fixes c :: stencil_context
  defines "c2 \<equiv> tb_set_shifts (tb_set_angles (tb_reset c))"
  shows "opts c2 = opts c" "fold_pts c2 = fold_pts c"
     "length (tb_widths c2) = length (tb_widths c)" "length (tb_tops c2) = length (tb_tops c)"
     "wf_angles c2 = wf_angles c" "max_halos c2 = max_halos c" "nddims c2 = nddims c"
  using tb_angle_loop_frame[of "[0..<nddims c]" "(tb_reset c, min (tb_steps (tb_reset c)) (wf_steps (tb_reset c)))"]
  by (simp_all add: c2_def tb_set_shifts_def tb_set_angles_def Let_def tb_reset_def)

lemma update_tb_info_at:
  assumes "j < nddims c" "nddims c \<le> length (tb_widths c)" "nddims c \<le> length (tb_tops c)"
  shows "tb_widths (update_tb_info c) ! j
           = (let blk_sz = block_sizes (opts c) ! (j + 1);
                  sa = num_tb_shifts (update_tb_info c) * tb_angles (update_tb_info c) ! j;
                  fpts = fold_pts c ! j
              in if num_tb_shifts (update_tb_info c) > 0 \<and> tb_angles (update_tb_info c) ! j > 0
                 then max (ROUND_UP (CEIL_DIV blk_sz 2 + sa) fpts) (fpts + 2 * sa)
                 else blk_sz)"
    and "tb_tops (update_tb_info c) ! j
           = (let blk_sz = block_sizes (opts c) ! (j + 1);
                  sa = num_tb_shifts (update_tb_info c) * tb_angles (update_tb_info c) ! j
              in if num_tb_shifts (update_tb_info c) > 0 \<and> tb_angles (update_tb_info c) ! j > 0
                 then max (tb_widths (update_tb_info c) ! j - 2 * sa) 0
                 else blk_sz)"
proof -
  define c2 where "c2 = tb_set_shifts (tb_set_angles (tb_reset c))"
  have u: "update_tb_info c = tb_width_loop [0..<nddims c] c2"
    by (simp add: update_tb_info_def c2_def)
  have f: "opts c2 = opts c" "fold_pts c2 = fold_pts c"
     "length (tb_widths c2) = length (tb_widths c)" "length (tb_tops c2) = length (tb_tops c)"
    unfolding c2_def by (rule tb_stages_frame)+
  have fr: "tb_angles (update_tb_info c) = tb_angles c2" "num_tb_shifts (update_tb_info c) = num_tb_shifts c2"
    using tb_width_loop_frame[of "[0..<nddims c]" c2] u by simp_all
  have at: "tb_widths (update_tb_info c) ! j = tb_widths (tb_width_dim c2 j) ! j"
     "tb_tops (update_tb_info c) ! j = tb_tops (tb_width_dim c2 j) ! j"
    using tb_width_loop_at[of j "[0..<nddims c]" c2] assms f u by simp_all
  have l: "j < length (tb_widths c2)" "j < length (tb_tops c2)" using assms f by simp_all
  show "tb_widths (update_tb_info c) ! j
           = (let blk_sz = block_sizes (opts c) ! (j + 1);
                  sa = num_tb_shifts (update_tb_info c) * tb_angles (update_tb_info c) ! j;
                  fpts = fold_pts c ! j
              in if num_tb_shifts (update_tb_info c) > 0 \<and> tb_angles (update_tb_info c) ! j > 0
                 then max (ROUND_UP (CEIL_DIV blk_sz 2 + sa) fpts) (fpts + 2 * sa)
                 else blk_sz)"
    using l by (simp add: at fr f tb_width_dim_def Let_def)
  show "tb_tops (update_tb_info c) ! j
           = (let blk_sz = block_sizes (opts c) ! (j + 1);
                  sa = num_tb_shifts (update_tb_info c) * tb_angles (update_tb_info c) ! j
              in if num_tb_shifts (update_tb_info c) > 0 \<and> tb_angles (update_tb_info c) ! j > 0
                 then max (tb_widths (update_tb_info c) ! j - 2 * sa) 0
                 else blk_sz)"
    using l by (simp add: at fr f tb_width_dim_def Let_def)
qed

lemma ROUND_UP_least_multiple:
  assumes "0 \<le> n" "0 < m"
  shows "m dvd ROUND_UP n m" "n \<le> ROUND_UP n m" "ROUND_UP n m < n + m"
proof -
  have s: "(n + m - 1) sdiv m = (n + m - 1) div m"
    using assms by (simp add: signed_divide_int_def sgn_if)
  have r: "ROUND_UP n m = (n + m - 1) div m * m"
    by (simp add: ROUND_UP_def CEIL_DIV_def s)
  show "m dvd ROUND_UP n m" by (simp add: r)
  have e: "(n + m - 1) div m * m = (n + m - 1) - (n + m - 1) mod m"
    by (simp add: minus_mod_eq_div_mult)
  have "0 \<le> (n + m - 1) mod m" "(n + m - 1) mod m < m"
    using assms by simp_all
  then show "n \<le> ROUND_UP n m" "ROUND_UP n m < n + m"
    unfolding r e by linarith+
qed




lemma trim_to_pack_bb_bounds:
  "fst (trim_to_pack_bb pbb j r) = max (fst r) (bb_begin pbb ! j)"
  "snd (trim_to_pack_bb pbb j r) = min (snd r) (bb_end pbb ! j)"
  by (simp_all add: trim_to_pack_bb_def)








text \<open>
  C9 (as amended). After \<^verbatim>\<open>update_tb_info\<close>, in every domain dim \<open>j\<close> in which a shift is made
  (\<open>num_tb_shifts > 0\<close> and \<open>tb_angles[j] > 0\<close>), with \<open>sa = num_tb_shifts * tb_angles[j]\<close>, the
  base of the trapezoid is the larger of \<open>ROUND_UP (CEIL_DIV block_size 2 + sa) fold\<close> and
  \<open>fold + 2 * sa\<close>, and its top is \<open>base - 2 * sa\<close> (or 0 if that is negative); in every other
  dim base and top are both the block size.
\<close>

theorem tb_trapezoid_base_and_top:
  assumes "j < nddims c" "nddims c \<le> length (tb_widths c)" "nddims c \<le> length (tb_tops c)"
  shows "tb_widths (update_tb_info c) ! j
           = (let blk_sz = block_sizes (opts c) ! (j + 1);
                  sa = num_tb_shifts (update_tb_info c) * tb_angles (update_tb_info c) ! j;
                  fpts = fold_pts c ! j
              in if num_tb_shifts (update_tb_info c) > 0 \<and> tb_angles (update_tb_info c) ! j > 0
                 then max (ROUND_UP (CEIL_DIV blk_sz 2 + sa) fpts) (fpts + 2 * sa)
                 else blk_sz)
       \<and> tb_tops (update_tb_info c) ! j
           = (let blk_sz = block_sizes (opts c) ! (j + 1);
                  sa = num_tb_shifts (update_tb_info c) * tb_angles (update_tb_info c) ! j
              in if num_tb_shifts (update_tb_info c) > 0 \<and> tb_angles (update_tb_info c) ! j > 0
                 then max (tb_widths (update_tb_info c) ! j - 2 * sa) 0
                 else blk_sz)"
  using update_tb_info_at[OF assms] by (rule conjI)

lemma tb_example_result:
  "tb_steps (update_tb_info tb_example) = 2" "num_tb_shifts (update_tb_info tb_example) = 1"
  "tb_angles (update_tb_info tb_example) = [4]" "tb_widths (update_tb_info tb_example) = [12]"
  "tb_tops (update_tb_info tb_example) = [4]"
  by code_simp+

theorem tb_trapezoid_base_and_top_witness:
  "(0::nat) < nddims tb_example \<and> nddims tb_example \<le> length (tb_widths tb_example)
   \<and> nddims tb_example \<le> length (tb_tops tb_example)
   \<and> tb_widths (update_tb_info tb_example) ! 0 = 12
   \<and> tb_tops (update_tb_info tb_example) ! 0 = 4"
proof -
  have h: "(0::nat) < nddims tb_example" "nddims tb_example \<le> length (tb_widths tb_example)"
    "nddims tb_example \<le> length (tb_tops tb_example)"
    by (simp_all add: tb_example_def)
  have v: "block_sizes (opts tb_example) ! Suc 0 = 16" "fold_pts tb_example ! 0 = 4"
    by (simp_all add: tb_example_def)
  show ?thesis
    using tb_trapezoid_base_and_top[OF h] h
    by (simp add: tb_example_result(2,3) v ROUND_UP_def CEIL_DIV_def)
qed

text \<open>
  The claim as stated fails on the example of the source's own comment (block size 16,
  angle 4, one shift, fold 4): temporal blocking is active with a non-zero angle, the base
  is 12 as the claim says, but the top is \<open>12 - 8 = 4\<close>, not \<open>16 - 2 * 1 * 4 = 8\<close>.
\<close>

theorem tb_top_counterexample:
  "tb_steps (update_tb_info tb_example) > 0
   \<and> tb_angles (update_tb_info tb_example) ! 0 = 4
   \<and> num_tb_shifts (update_tb_info tb_example) = 1
   \<and> tb_widths (update_tb_info tb_example) ! 0 = ROUND_UP (16 div 2 + 1 * 4) 4
   \<and> tb_tops (update_tb_info tb_example) ! 0 = 4
   \<and> tb_tops (update_tb_info tb_example) ! 0
       \<noteq> block_sizes (opts tb_example) ! 1
           - 2 * num_tb_shifts (update_tb_info tb_example) * tb_angles (update_tb_info tb_example) ! 0"
  by (simp add: tb_example_result) (simp add: tb_example_def ROUND_UP_def CEIL_DIV_def)










lemma all_points_iff:
  "p \<in> set (all_points ns) \<longleftrightarrow> length p = length ns \<and> (\<forall>i < length ns. p ! i < ns ! i)"
proof (induction ns arbitrary: p)
  case Nil
  then show ?case by simp
next
  case (Cons n ns)
  show ?case
  proof (cases p)
    case Nil
    then show ?thesis by auto
  next
    case (Cons x xs)
    have "(\<forall>i < Suc (length ns). (x # xs) ! i < (n # ns) ! i)
            \<longleftrightarrow> x < n \<and> (\<forall>i < length ns. xs ! i < ns ! i)"
      by (auto simp: less_Suc_eq_0_disj)
    then show ?thesis
      using Cons Cons.IH[of xs] by auto
  qed
qed

lemma visit_order_set: "set (visit_order fi ns) = set (all_points ns)"
proof (cases fi)
  case False
  then show ?thesis by (simp add: visit_order_def)
next
  case True
  have "p \<in> set (map rev (all_points (rev ns))) \<longleftrightarrow> p \<in> set (all_points ns)" for p
  proof -
    have "p \<in> set (map rev (all_points (rev ns))) \<longleftrightarrow> rev p \<in> set (all_points (rev ns))"
      by (metis (no_types, lifting) image_iff rev_rev_ident set_map)
    also have "\<dots> \<longleftrightarrow> length p = length ns \<and> (\<forall>i < length ns. rev p ! i < rev ns ! i)"
      by (simp add: all_points_iff)
    also have "\<dots> \<longleftrightarrow> length p = length ns \<and> (\<forall>i < length ns. p ! i < ns ! i)"
    proof (cases "length p = length ns")
      case False
      then show ?thesis by simp
    next
      case l: True
      have "(\<forall>i < length ns. rev p ! i < rev ns ! i) \<longleftrightarrow> (\<forall>i < length ns. p ! i < ns ! i)"
      proof
        assume a: "\<forall>i < length ns. rev p ! i < rev ns ! i"
        show "\<forall>i < length ns. p ! i < ns ! i"
        proof (intro allI impI)
          fix i assume i: "i < length ns"
          then have "length ns - Suc i < length ns" by simp
          from a[rule_format, OF this] show "p ! i < ns ! i"
            using i l by (simp add: rev_nth)
        qed
      next
        assume a: "\<forall>i < length ns. p ! i < ns ! i"
        show "\<forall>i < length ns. rev p ! i < rev ns ! i"
          using a l by (simp add: rev_nth)
      qed
      then show ?thesis by simp
    qed
    finally show ?thesis by (simp add: all_points_iff)
  qed
  then show ?thesis
    using True by (auto simp: visit_order_def all_points_first_inner_def simp del: set_map)
qed

text \<open>The fold of the visitor keeps a valid layout of least max size.\<close>

lemma layout_fold_member:
  "foldl (layout_visitor nr facts nranks) best combos = best
   \<or> (\<exists>c \<in> set combos. foldl (layout_visitor nr facts nranks) best combos = combo_layout nr facts nranks c
         \<and> tuple_product (combo_layout nr facts nranks c) = nr)"
proof (induction combos arbitrary: best)
  case Nil
  then show ?case by simp
next
  case (Cons c cs)
  show ?case
    using Cons.IH[of "layout_visitor nr facts nranks best c"]
    by (auto simp: layout_visitor_def Let_def split: if_splits)
qed

lemma layout_fold_least:
  assumes "\<forall>c \<in> set combos. combo_layout nr facts nranks c \<noteq> []"
  shows "(best \<noteq> [] \<longrightarrow> foldl (layout_visitor nr facts nranks) best combos \<noteq> []
            \<and> tuple_max (foldl (layout_visitor nr facts nranks) best combos) \<le> tuple_max best)
       \<and> (\<forall>c \<in> set combos. tuple_product (combo_layout nr facts nranks c) = nr \<longrightarrow>
             foldl (layout_visitor nr facts nranks) best combos \<noteq> []
           \<and> tuple_max (foldl (layout_visitor nr facts nranks) best combos)
                \<le> tuple_max (combo_layout nr facts nranks c))"
  using assms
proof (induction combos arbitrary: best)
  case Nil
  then show ?case by simp
next
  case (Cons c cs)
  let ?b = "layout_visitor nr facts nranks best c"
  have ne: "\<forall>c \<in> set cs. combo_layout nr facts nranks c \<noteq> []" "combo_layout nr facts nranks c \<noteq> []"
    using Cons.prems by simp_all
  note ih = Cons.IH[OF ne(1), of ?b]
  have b1: "best \<noteq> [] \<Longrightarrow> ?b \<noteq> [] \<and> tuple_max ?b \<le> tuple_max best"
    using ne(2) by (auto simp: layout_visitor_def Let_def)
  have b2: "tuple_product (combo_layout nr facts nranks c) = nr \<Longrightarrow>
            ?b \<noteq> [] \<and> tuple_max ?b \<le> tuple_max (combo_layout nr facts nranks c)"
    using ne(2) by (auto simp: layout_visitor_def Let_def)
  show ?case
    using ih b1 b2 by (simp; metis order_trans)
qed

lemma sdiv_nonneg: "0 \<le> a \<Longrightarrow> 0 < b \<Longrightarrow> a sdiv b = a div (b::int)"
  by (simp add: signed_divide_int_def sgn_if)

lemma smod_nonneg: "0 \<le> a \<Longrightarrow> 0 < b \<Longrightarrow> a smod b = a mod (b::int)"
  by (simp add: signed_modulo_int_def sgn_if)

lemma rank_factors_iff:
  assumes "0 < nr"
  shows "x \<in> set (rank_factors nr) \<longleftrightarrow> 0 < x \<and> x dvd nr"
proof -
  have s: "set (map int [1..<nat (nr + 1)]) = {1..nr}"
  proof (intro set_eqI iffI)
    fix y assume "y \<in> set (map int [1..<nat (nr + 1)])"
    then show "y \<in> {1..nr}" by auto
  next
    fix y assume y: "y \<in> {1..nr}"
    then have "nat y \<in> set [1..<nat (nr + 1)]" by auto
    then have "int (nat y) \<in> int ` set [1..<nat (nr + 1)]" by (rule imageI)
    then show "y \<in> set (map int [1..<nat (nr + 1)])" using y by simp
  qed
  show ?thesis
  proof
    assume "x \<in> set (rank_factors nr)"
    then have x: "1 \<le> x" "x \<le> nr" "nr smod x = 0"
      using s by (auto simp: rank_factors_def)
    then have "nr mod x = 0" using assms by (simp add: smod_nonneg)
    then show "0 < x \<and> x dvd nr" using x by auto
  next
    assume x: "0 < x \<and> x dvd nr"
    then have "x \<le> nr" using assms by (simp add: zdvd_imp_le)
    moreover have "nr smod x = 0" using x assms by (simp add: smod_nonneg)
    ultimately show "x \<in> set (rank_factors nr)"
      using x s by (auto simp: rank_factors_def)
  qed
qed

lemma prod_list_pos: "list_all (\<lambda>x. 0 < x) xs \<Longrightarrow> 0 < prod_list (xs :: int list)"
  by (induction xs) simp_all

lemma combo_layout_length [simp]:
  "length (combo_layout nr facts nranks c) = length nranks"
  by (simp add: combo_layout_def override_specified_def Let_def)

lemma combo_layout_alt:
  "combo_layout nr facts nranks c =
     (if override_specified facts nranks c ! 0 = - 1
      then (override_specified facts nranks c)
             [0 := nr sdiv tuple_product ((override_specified facts nranks c)[0 := 1])]
      else override_specified facts nranks c)"
  by (simp add: combo_layout_def Let_def)

lemma override_tl_pos:
  assumes "0 < nr" "list_all (\<lambda>x. 0 \<le> x) nranks"
    and c: "c \<in> set (all_points (combo_sizes (rank_factors nr) nranks))"
    and j: "0 < j" "j < length nranks"
  shows "0 < override_specified (rank_factors nr) nranks c ! j"
proof (cases "nranks ! j = 0")
  case False
  moreover have "0 \<le> nranks ! j" using assms(2) j by (simp add: list_all_length)
  ultimately show ?thesis using j by (simp add: override_specified_def)
next
  case True
  from c have l: "length c = length nranks"
    by (simp add: all_points_iff combo_sizes_def)
  from c have "\<forall>i < length nranks. c ! i < combo_sizes (rank_factors nr) nranks ! i"
    by (simp add: all_points_iff combo_sizes_def)
  then have b: "c ! j < combo_sizes (rank_factors nr) nranks ! j"
    using j by blast
  then have "c ! j < length (rank_factors nr)" using True j by (simp add: combo_sizes_def)
  then have "rank_factors nr ! (c ! j) \<in> set (rank_factors nr)" by simp
  then have "0 < rank_factors nr ! (c ! j)" using assms(1) by (simp add: rank_factors_iff)
  then show ?thesis using True j l by (simp add: override_specified_def)
qed

lemma combo_layout_props:
  assumes nr: "0 < nr" and nn: "list_all (\<lambda>x. 0 \<le> x) nranks" and n: "0 < length nranks"
    and c: "c \<in> set (all_points (combo_sizes (rank_factors nr) nranks))"
    and p: "tuple_product (combo_layout nr (rank_factors nr) nranks c) = nr"
  shows "is_rank_layout nr nranks (combo_layout nr (rank_factors nr) nranks c)"
proof -
  let ?o = "override_specified (rank_factors nr) nranks c"
  let ?L = "combo_layout nr (rank_factors nr) nranks c"
  have lo: "length ?o = length nranks" by (simp add: override_specified_def)
  have tlpos: "\<And>j. 0 < j \<Longrightarrow> j < length nranks \<Longrightarrow> 0 < ?o ! j"
    using override_tl_pos[OF nr nn c] by simp
  have o0: "?o ! 0 = (if nranks ! 0 \<noteq> 0 then nranks ! 0 else - 1)"
    using n by (simp add: override_specified_def)
  have n0: "0 \<le> nranks ! 0" using nn n by (simp add: list_all_length)
  have Lj: "\<And>j. 0 < j \<Longrightarrow> j < length nranks \<Longrightarrow> ?L ! j = ?o ! j"
    by (simp add: combo_layout_alt)
  have resp_o: "\<And>j. j < length nranks \<Longrightarrow> nranks ! j \<noteq> 0 \<Longrightarrow> ?o ! j = nranks ! j"
    by (simp add: override_specified_def)
  obtain o0v ot where oo: "?o = o0v # ot"
    using lo n by (cases ?o) auto
  have otpos: "list_all (\<lambda>x. 0 < x) ot"
  proof -
    have "\<forall>k < length ot. 0 < ot ! k"
    proof (intro allI impI)
      fix k assume "k < length ot"
      then have "Suc k < length nranks" using oo lo by (metis Suc_less_eq length_Cons)
      from tlpos[OF _ this] show "0 < ot ! k" using oo by simp
    qed
    then show ?thesis by (simp add: list_all_length)
  qed
  have L0: "0 < ?L ! 0 \<and> (nranks ! 0 \<noteq> 0 \<longrightarrow> ?L ! 0 = nranks ! 0)"
  proof (cases "nranks ! 0 = 0")
    case False
    then have "?o ! 0 = nranks ! 0" "?o ! 0 \<noteq> - 1" using o0 n0 by auto
    then show ?thesis using False n0 by (simp add: combo_layout_alt)
  next
    case True
    then have m: "?o ! 0 = - 1" using o0 by simp
    have P: "tuple_product (?o[0 := 1]) = prod_list ot"
      using oo by (simp add: tuple_product_def)
    have L: "?L = (nr sdiv prod_list ot) # ot"
      using m oo P by (simp add: combo_layout_alt)
    have "0 < prod_list ot" using otpos by (rule prod_list_pos)
    moreover have "(nr sdiv prod_list ot) * prod_list ot = nr"
      using p L by (simp add: tuple_product_def)
    ultimately have "0 < nr sdiv prod_list ot"
      using nr by (metis zero_less_mult_pos2)
    then show ?thesis using L True by simp
  qed
  have pos: "list_all (\<lambda>x. 0 < x) ?L"
  proof -
    have "\<forall>j < length ?L. 0 < ?L ! j"
    proof (intro allI impI)
      fix j assume j: "j < length ?L"
      show "0 < ?L ! j"
      proof (cases j)
        case 0
        then show ?thesis using L0 by simp
      next
        case (Suc k)
        then show ?thesis using j Lj[of j] tlpos[of j] by simp
      qed
    qed
    then show ?thesis by (simp add: list_all_length)
  qed
  have resp: "list_all (\<lambda>j. nranks ! j = 0 \<or> ?L ! j = nranks ! j) [0..<length nranks]"
  proof -
    have "\<forall>j < length nranks. nranks ! j = 0 \<or> ?L ! j = nranks ! j"
    proof (intro allI impI)
      fix j assume j: "j < length nranks"
      show "nranks ! j = 0 \<or> ?L ! j = nranks ! j"
      proof (cases j)
        case 0
        then show ?thesis using L0 by auto
      next
        case (Suc k)
        then show ?thesis using j Lj[of j] resp_o[of j] by auto
      qed
    qed
    then show ?thesis by (simp add: list_all_iff)
  qed
  show ?thesis
    using pos resp p by (simp add: is_rank_layout_def tuple_product_def)
qed

lemma layout_is_combo:
  assumes nr: "0 < nr" and nn: "list_all (\<lambda>x. 0 \<le> x) nranks" and n: "0 < length nranks"
    and L: "is_rank_layout nr nranks L"
  shows "\<exists>c \<in> set (all_points (combo_sizes (rank_factors nr) nranks)).
           combo_layout nr (rank_factors nr) nranks c = L"
proof -
  let ?f = "rank_factors nr"
  from L have len: "length L = length nranks" and pos: "\<forall>j < length L. 0 < L ! j"
    and prod: "prod_list L = nr"
    and resp: "\<forall>j < length nranks. nranks ! j = 0 \<or> L ! j = nranks ! j"
    by (simp_all add: is_rank_layout_def list_all_length)
  have "\<forall>j. \<exists>k. j < length L \<longrightarrow> k < length ?f \<and> ?f ! k = L ! j"
  proof
    fix j
    show "\<exists>k. j < length L \<longrightarrow> k < length ?f \<and> ?f ! k = L ! j"
    proof (cases "j < length L")
      case False
      then show ?thesis by simp
    next
      case True
      then have "L ! j dvd nr" using prod prod_list_dvd[of "L ! j" L] by simp
      then have "L ! j \<in> set ?f" using pos True nr by (simp add: rank_factors_iff)
      then show ?thesis by (metis in_set_conv_nth)
    qed
  qed
  then have "\<exists>k. \<forall>j. j < length L \<longrightarrow> k j < length ?f \<and> ?f ! (k j) = L ! j"
    by (rule choice)
  then obtain k where k: "\<forall>j. j < length L \<longrightarrow> k j < length ?f \<and> ?f ! (k j) = L ! j"
    by (rule exE)
  define c where "c = map (\<lambda>j. if j = 0 \<or> nranks ! j \<noteq> 0 then 0 else k j) [0..<length nranks]"
  have cin: "c \<in> set (all_points (combo_sizes ?f nranks))"
    using k len by (auto simp: all_points_iff combo_sizes_def c_def)
  have ov: "override_specified ?f nranks c = L[0 := (if nranks ! 0 \<noteq> 0 then L ! 0 else - 1)]"
  proof (rule nth_equalityI)
    show "length (override_specified ?f nranks c) = length (L[0 := (if nranks ! 0 \<noteq> 0 then L ! 0 else - 1)])"
      using len by (simp add: override_specified_def)
  next
    fix j assume "j < length (override_specified ?f nranks c)"
    then have j: "j < length nranks" by (simp add: override_specified_def)
    show "override_specified ?f nranks c ! j = L[0 := (if nranks ! 0 \<noteq> 0 then L ! 0 else - 1)] ! j"
    proof (cases "j = 0")
      case True
      then show ?thesis using j len resp by (auto simp: override_specified_def)
    next
      case False
      then show ?thesis using j len resp k by (auto simp: override_specified_def c_def)
    qed
  qed
  obtain l0 lt where ll: "L = l0 # lt" using len n by (cases L) auto
  have l0: "0 < l0" using pos ll by auto
  have ltpos: "0 < prod_list lt"
  proof (rule prod_list_pos)
    have "\<forall>i < length lt. 0 < lt ! i"
    proof (intro allI impI)
      fix i assume "i < length lt"
      then have "Suc i < length L" using ll by simp
      from pos[rule_format, OF this] show "0 < lt ! i" using ll by simp
    qed
    then show "list_all (\<lambda>x. 0 < x) lt" by (simp add: list_all_length)
  qed
  have pr: "nr = l0 * prod_list lt" using prod ll by simp
  have "combo_layout nr ?f nranks c = L"
  proof (cases "nranks ! 0 = 0")
    case False
    then have "override_specified ?f nranks c = L" using ov ll by simp
    moreover have "L ! 0 \<noteq> - 1" using l0 ll by simp
    ultimately show ?thesis by (simp add: combo_layout_alt)
  next
    case True
    then have o: "override_specified ?f nranks c = (- 1) # lt" using ov ll by simp
    have "nr sdiv prod_list lt = l0"
      using pr ltpos nr by (simp add: sdiv_nonneg)
    then show ?thesis using o ll by (simp add: combo_layout_alt tuple_product_def)
  qed
  then show ?thesis using cin by blast
qed

lemma tuple_product_zero_nonempty: "tuple_product xs = 0 \<Longrightarrow> 0 < length xs"
  by (cases xs) (simp_all add: tuple_product_def)

text \<open>
  C5. When some per-dim rank count is unset (zero) and a layout is selected, the selected
  layout has one positive count per dim whose product is the number of active ranks, keeps
  every specified non-zero count, and no layout with these properties has a smaller
  largest count. A layout is selected whenever one with these properties exists;
  otherwise none is (the assertion on \<^verbatim>\<open>best.size()\<close> fails). This holds for either order in
  which the combos are visited. The number of ranks is positive and the specified counts
  are not negative.
\<close>

theorem rank_layout_most_compact:
  assumes "0 < nr" "list_all (\<lambda>x. 0 \<le> x) nranks" "tuple_product nranks = 0"
  shows "case set_num_ranks first_inner nr nranks of
           Some best \<Rightarrow> is_rank_layout nr nranks best
             \<and> (\<forall>L. is_rank_layout nr nranks L \<longrightarrow> tuple_max best \<le> tuple_max L)
         | None \<Rightarrow> \<not> (\<exists>L. is_rank_layout nr nranks L)"
proof -
  let ?f = "rank_factors nr"
  let ?cs = "visit_order first_inner (combo_sizes ?f nranks)"
  let ?b = "foldl (layout_visitor nr ?f nranks) [] ?cs"
  have n: "0 < length nranks" using assms(3) by (rule tuple_product_zero_nonempty)
  have cs: "set ?cs = set (all_points (combo_sizes ?f nranks))" by (rule visit_order_set)
  have ne: "\<forall>c \<in> set ?cs. combo_layout nr ?f nranks c \<noteq> []"
    using n by (metis combo_layout_length length_greater_0_conv)
  note least = layout_fold_least[OF ne, of "[]", THEN conjunct2, rule_format]
  have all: "\<And>L. is_rank_layout nr nranks L \<Longrightarrow> ?b \<noteq> [] \<and> tuple_max ?b \<le> tuple_max L"
  proof -
    fix L assume L: "is_rank_layout nr nranks L"
    from layout_is_combo[OF assms(1,2) n L] obtain c where
      c: "c \<in> set ?cs" "combo_layout nr ?f nranks c = L" using cs by auto
    have "tuple_product L = nr" using L by (simp add: is_rank_layout_def tuple_product_def)
    with least[OF c(1)] c(2) show "?b \<noteq> [] \<and> tuple_max ?b \<le> tuple_max L" by simp
  qed
  have s: "set_num_ranks first_inner nr nranks = (if length ?b = 0 then None else Some ?b)"
    using assms(3) by (simp add: set_num_ranks_def find_rank_layout_def Let_def)
  show ?thesis
  proof (cases "?b = []")
    case True
    then show ?thesis using s all by auto
  next
    case False
    with layout_fold_member[of nr ?f nranks "[]" ?cs] obtain c where
      c: "c \<in> set ?cs" "?b = combo_layout nr ?f nranks c"
         "tuple_product (combo_layout nr ?f nranks c) = nr"
      by auto
    have "is_rank_layout nr nranks ?b"
      using combo_layout_props[OF assms(1,2) n _ c(3)] c(1,2) cs by simp
    then show ?thesis using s all False by simp
  qed
qed


theorem rank_layout_most_compact_witness:
  "(0::int) < 6 \<and> list_all (\<lambda>x. 0 \<le> x) [0, 0 :: int] \<and> tuple_product [0, 0] = 0
   \<and> set_num_ranks False 6 [0, 0] = Some [3, 2]
   \<and> is_rank_layout 6 [0, 0] [3, 2] \<and> is_rank_layout 6 [0, 0] [1, 6]
   \<and> tuple_max [3, 2] \<le> tuple_max [1, 6]"
proof -
  have h: "(0::int) < 6" "list_all (\<lambda>x. 0 \<le> x) [0, 0 :: int]" "tuple_product [0, 0] = 0"
    by (simp_all add: tuple_product_def)
  have r: "set_num_ranks False 6 [0, 0] = Some [3, 2]"
    by code_simp
  have l: "is_rank_layout 6 [0, 0] [1, 6]"
    by code_simp
  from rank_layout_most_compact[OF h, of False] r
  have "is_rank_layout 6 [0, 0] [3, 2]"
    and "\<forall>L. is_rank_layout 6 [0, 0] L \<longrightarrow> tuple_max [3, 2] \<le> tuple_max L"
    by simp_all
  then show ?thesis using h r l by blast
qed

lemma man_dist_acc: "foldl (\<lambda>mandist d. mandist + \<bar>d\<bar>) a ds = a + sum_list (map abs ds)"
  by (induction ds arbitrary: a) (simp_all add: add.assoc)

lemma man_dist_self: "man_dist (rank_deltas t me me n) = 0"
  by (simp add: man_dist_def rank_deltas_def man_dist_acc comp_def)

lemma check_same_sizes_kind:
  "check_same_sizes djs t me rn di = Some e \<Longrightarrow> kind_of e = Some TopologyError"
  by (induction djs) (auto simp: Let_def split: if_splits)

lemma check_same_sizes_finds:
  "dj \<in> set djs \<Longrightarrow> di \<noteq> dj \<Longrightarrow> rsizes t ! me ! dj \<noteq> rsizes t ! rn ! dj \<Longrightarrow>
     \<exists>e. check_same_sizes djs t me rn di = Some e"
  by (induction djs) (auto simp: Let_def)

lemma inline_dim_kind:
  "inline_dim pass t me rn rdeltas st di = Inl e \<Longrightarrow> kind_of e = Some TopologyError"
  by (auto simp: inline_dim_def Let_def check_same_sizes_kind split: if_splits option.splits)

lemma inline_dims_loop_kind:
  "inline_dims_loop dis pass t me rn rdeltas st = Inl e \<Longrightarrow> kind_of e = Some TopologyError"
  by (induction dis arbitrary: st) (auto simp: inline_dim_kind split: sum.splits)

lemma inline_dims_loop_throws:
  assumes "di \<in> set dis" "is_inline rdeltas di"
    "\<exists>e. check_same_sizes [0..<length rdeltas] t me rn di = Some e"
  shows "\<exists>e. inline_dims_loop dis 1 t me rn rdeltas st = Inl e"
  using assms(1)
proof (induction dis arbitrary: st)
  case Nil
  then show ?case by simp
next
  case (Cons d ds)
  show ?case
  proof (cases "inline_dim 1 t me rn rdeltas st d")
    case (Inl e)
    then show ?thesis by simp
  next
    case (Inr st')
    have "d \<noteq> di"
    proof
      assume "d = di"
      then show False using Inr assms(2,3) by (auto simp: inline_dim_def Let_def)
    qed
    then have "di \<in> set ds" using Cons.prems by simp
    from Cons.IH[OF this, of st'] show ?thesis using Inr by simp
  qed
qed

lemma visit_rank_kind:
  "visit_rank pass t me n st rn = Inl e \<Longrightarrow> kind_of e = Some TopologyError"
  using man_dist_self[of t me n]
  by (auto simp: visit_rank_def Let_def inline_dims_loop_kind split: if_splits sum.splits)

lemma ranks_loop_kind:
  "ranks_loop rns pass t me n st = Inl e \<Longrightarrow> kind_of e = Some TopologyError"
  by (induction rns arbitrary: st) (auto simp: visit_rank_kind split: sum.splits)

lemma ranks_loop_throws:
  assumes "rn \<in> set rns" "\<And>st. \<exists>e. visit_rank pass t me n st rn = Inl e"
  shows "\<exists>e. ranks_loop rns pass t me n st = Inl e"
  using assms(1)
proof (induction rns arbitrary: st)
  case Nil
  then show ?case by simp
next
  case (Cons r rs)
  show ?case
  proof (cases "visit_rank pass t me n st r")
    case (Inl e)
    then show ?thesis by simp
  next
    case (Inr st')
    then have "r \<noteq> rn" using assms(2)[of st] by auto
    then have "rn \<in> set rs" using Cons.prems by simp
    from Cons.IH[OF this, of st'] show ?thesis using Inr by simp
  qed
qed

text \<open>
  C6. In the second pass over the ranks, on the checking rank \<open>me\<close>: if some rank \<open>rn\<close> is
  in-line with \<open>me\<close> in a domain dim \<open>di\<close> (their coordinates agree in every other dim) and
  their local-domain sizes differ in another dim \<open>dj\<close>, the pass throws, and the exception is
  of the \<open>TopologyError\<close> kind (the ranks are unaligned, or two ranks are at the same
  coordinates).
\<close>

theorem unaligned_ranks_rejected:
  assumes "rn < nr" "di < n" "dj < n" "di \<noteq> dj"
    and "\<forall>dk < n. dk \<noteq> di \<longrightarrow> coords t ! rn ! dk = coords t ! me ! dk"
    and "rsizes t ! me ! dj \<noteq> rsizes t ! rn ! dj"
  shows "\<exists>e. rank_pass 1 t me nr n offsets = Inl e \<and> kind_of e = Some TopologyError"
proof -
  let ?rd = "rank_deltas t me rn n"
  have len: "length ?rd = n" by (simp add: rank_deltas_def)
  have inl: "is_inline ?rd di"
    using assms(5) by (auto simp: is_inline_def list_all_iff rank_deltas_def)
  have chk: "\<exists>e. check_same_sizes [0..<length ?rd] t me rn di = Some e"
    using check_same_sizes_finds[of dj "[0..<n]" di t me rn] assms(3,4,6) len by simp
  have ne: "rn \<noteq> me" using assms(6) by auto
  have v: "\<exists>e. visit_rank 1 t me n st rn = Inl e" for st
  proof (cases "man_dist ?rd = 0")
    case True
    then show ?thesis using ne by (simp add: visit_rank_def Let_def)
  next
    case False
    from inline_dims_loop_throws[OF _ inl chk, of "[0..<n]" st] assms(2)
    obtain e where "inline_dims_loop [0..<n] 1 t me rn ?rd st = Inl e" by auto
    then show ?thesis using ne False by (simp add: visit_rank_def Let_def)
  qed
  from ranks_loop_throws[of rn "[0..<nr]" 1 t me n, OF _ v] assms(1)
  obtain e where e: "rank_pass 1 t me nr n offsets = Inl e"
    by (auto simp: rank_pass_def)
  then have "kind_of e = Some TopologyError"
    by (auto simp: rank_pass_def intro: ranks_loop_kind)
  with e show ?thesis by blast
qed

theorem unaligned_ranks_rejected_witness:
  "(1::nat) < 2 \<and> (0::nat) < 2 \<and> (0::nat) \<noteq> 1
   \<and> coords unaligned_tables ! 1 ! 1 = coords unaligned_tables ! 0 ! 1
   \<and> rsizes unaligned_tables ! 0 ! 1 \<noteq> rsizes unaligned_tables ! 1 ! 1
   \<and> (\<exists>e. rank_pass 1 unaligned_tables 0 2 2 [0, 0] = Inl e \<and> kind_of e = Some TopologyError)"
proof -
  have h: "\<forall>dk < 2. dk \<noteq> 0 \<longrightarrow> coords unaligned_tables ! 1 ! dk = coords unaligned_tables ! 0 ! dk"
    by (simp add: unaligned_tables_def less_Suc_eq numeral_2_eq_2)
  have s: "rsizes unaligned_tables ! 0 ! 1 \<noteq> rsizes unaligned_tables ! 1 ! 1"
    by (simp add: unaligned_tables_def)
  have "\<exists>e. rank_pass 1 unaligned_tables 0 2 2 [0, 0] = Inl e \<and> kind_of e = Some TopologyError"
    by (rule unaligned_ranks_rejected[of 1 2 0 2 1, OF _ _ _ _ h s]) simp_all
  then show ?thesis using s by (simp add: unaligned_tables_def)
qed

lemma omap_update_keys: "fst ` set (omap_update k v m) = insert k (fst ` set m)"
proof (induction m)
  case Nil
  then show ?case by simp
next
  case (Cons p m)
  obtain k' v' where p: "p = (k', v')" by (cases p)
  show ?case
    using Cons.IH by (simp add: p insert_commute)
qed

lemma omap_update_sorted:
  "sorted_wrt (<) (map fst m) \<Longrightarrow> sorted_wrt (<) (map fst (omap_update k v m))"
proof (induction m)
  case Nil
  then show ?case by simp
next
  case (Cons p m)
  obtain k' v' where p: "p = (k', v')" by (cases p)
  have s: "sorted_wrt (<) (map fst m)" "\<forall>x \<in> fst ` set m. k' < x"
    using Cons.prems p by auto
  show ?case
  proof (cases "k < k'")
    case True
    then show ?thesis using Cons.prems p by auto
  next
    case False
    show ?thesis
    proof (cases "k = k'")
      case True
      then show ?thesis using Cons.prems p by auto
    next
      case ne: False
      then have "k' < k" using False by simp
      then have "\<forall>x \<in> fst ` set (omap_update k v m). k' < x"
        using s(2) by (simp add: omap_update_keys)
      then show ?thesis
        using Cons.IH[OF s(1)] p False ne by (auto simp: image_iff)
    qed
  qed
qed

lemma note_dirty_steps_keys:
  "fst ` set (varsToSwap (foldl (note_dirty_step gb gp) sw ts))
     = fst ` set (varsToSwap sw) \<union> (if \<exists>t \<in> set ts. is_dirty gb t then {var_name gb} else {})
   \<and> (sorted_wrt (<) (map fst (varsToSwap sw))
        \<longrightarrow> sorted_wrt (<) (map fst (varsToSwap (foldl (note_dirty_step gb gp) sw ts))))"
proof (induction ts arbitrary: sw)
  case Nil
  then show ?case by simp
next
  case (Cons t ts)
  have k: "fst ` set (varsToSwap (note_dirty_step gb gp sw t))
            = fst ` set (varsToSwap sw) \<union> (if is_dirty gb t then {var_name gb} else {})"
    by (simp add: note_dirty_step_def omap_update_keys)
  have so: "sorted_wrt (<) (map fst (varsToSwap sw))
        \<Longrightarrow> sorted_wrt (<) (map fst (varsToSwap (note_dirty_step gb gp sw t)))"
    by (simp add: note_dirty_step_def omap_update_sorted)
  show ?case
    using Cons.IH[of "note_dirty_step gb gp sw t"] k so by auto
qed

lemma note_var_keys:
  "fst ` set (varsToSwap (note_var c sw gp))
     = fst ` set (varsToSwap sw)
       \<union> (if needs_swap c (varPtrs c ! gp) then {var_name (varPtrs c ! gp)} else {})
   \<and> (sorted_wrt (<) (map fst (varsToSwap sw))
        \<longrightarrow> sorted_wrt (<) (map fst (varsToSwap (note_var c sw gp))))"
proof (cases "needs_swap c (varPtrs c ! gp)")
  case True
  then show ?thesis
    using note_dirty_steps_keys[of "varPtrs c ! gp" gp sw "swap_steps (varPtrs c ! gp)"]
    by (auto simp: note_var_def Let_def needs_swap_def)
next
  case False
  show ?thesis
  proof (cases "is_scratch (varPtrs c ! gp) \<or> map_of (mpiData c) (var_name (varPtrs c ! gp)) = None")
    case True
    then show ?thesis using False by (auto simp: note_var_def Let_def)
  next
    case nt: False
    then have "\<not> (\<exists>t \<in> set (swap_steps (varPtrs c ! gp)). is_dirty (varPtrs c ! gp) t)"
      using False by (simp add: needs_swap_def)
    then show ?thesis
      using note_dirty_steps_keys[of "varPtrs c ! gp" gp sw "swap_steps (varPtrs c ! gp)"] nt False
      by (simp add: note_var_def Let_def)
  qed
qed

lemma note_vars_keys:
  "fst ` set (varsToSwap (foldl (note_var c) sw gs))
     = fst ` set (varsToSwap sw)
       \<union> {var_name (varPtrs c ! g) | g. g \<in> set gs \<and> needs_swap c (varPtrs c ! g)}
   \<and> (sorted_wrt (<) (map fst (varsToSwap sw))
        \<longrightarrow> sorted_wrt (<) (map fst (varsToSwap (foldl (note_var c) sw gs))))"
proof (induction gs arbitrary: sw)
  case Nil
  then show ?case by simp
next
  case (Cons g gs)
  show ?case
    using Cons.IH[of "note_var c sw g"] note_var_keys[of c sw g] by auto
qed

lemma vars_to_swap_keys:
  "set (map fst (varsToSwap (vars_to_swap c))) = swap_names c"
  "sorted_wrt (<) (map fst (varsToSwap (vars_to_swap c)))"
proof -
  let ?e = "\<lparr>varsToSwap = [], firstStepsToSwap = Map.empty, lastStepsToSwap = Map.empty\<rparr>"
  have "{var_name (varPtrs c ! g) | g. g \<in> set [0..<length (varPtrs c)] \<and> needs_swap c (varPtrs c ! g)}
          = swap_names c"
    by (auto simp: swap_names_def needs_swap_def in_set_conv_nth)
  then show "set (map fst (varsToSwap (vars_to_swap c))) = swap_names c"
    using note_vars_keys[of c ?e "[0..<length (varPtrs c)]"]
    by (simp add: vars_to_swap_def)
  show "sorted_wrt (<) (map fst (varsToSwap (vars_to_swap c)))"
    using note_vars_keys[of c ?e "[0..<length (varPtrs c)]"]
    by (simp add: vars_to_swap_def)
qed

lemma sorted_ordinal:
  assumes "sorted_wrt (<) ks" "k < length ks"
  shows "name_ordinal (set ks) (ks ! k) = int k + 1"
proof -
  have d: "distinct ks"
    using assms(1) by (induction ks) auto
  have "{m \<in> set ks. m < ks ! k} = set (take k ks)"
  proof (intro set_eqI iffI)
    fix m assume "m \<in> {m \<in> set ks. m < ks ! k}"
    then obtain i where i: "i < length ks" "m = ks ! i" "ks ! i < ks ! k"
      by (auto simp: in_set_conv_nth)
    have "i < k"
    proof (rule ccontr)
      assume "\<not> i < k"
      then have "k = i \<or> k < i" by auto
      then show False
        using i assms sorted_wrt_nth_less[OF assms(1), of k i] by auto
    qed
    then show "m \<in> set (take k ks)"
      using i by (auto simp: in_set_conv_nth)
  next
    fix m assume "m \<in> set (take k ks)"
    then obtain i where i: "i < k" "m = ks ! i"
      using assms(2) by (auto simp: in_set_conv_nth)
    then show "m \<in> {m \<in> set ks. m < ks ! k}"
      using sorted_wrt_nth_less[OF assms(1), of i k] assms(2) by auto
  qed
  moreover have "card (set (take k ks)) = k"
    using d assms(2) by (simp add: distinct_card)
  ultimately show ?thesis by (simp add: name_ordinal_def)
qed


lemma visit_neighbor_tags:
  "\<exists>new. snd (visit_neighbor c sw hs gi gname gp st bufs) = snd st @ new
     \<and> (\<forall>ev \<in> set new. \<forall>n tag. call_tag ev = Some (n, tag) \<longrightarrow> n = gname \<and> tag = gi)"
  by (cases hs) (auto simp: visit_neighbor_def Let_def)

lemma visit_neighbors_tags:
  "\<exists>new. snd (foldl (visit_neighbor c sw hs gi gname gp) st bs) = snd st @ new
     \<and> (\<forall>ev \<in> set new. \<forall>n tag. call_tag ev = Some (n, tag) \<longrightarrow> n = gname \<and> tag = gi)"
proof (induction bs arbitrary: st)
  case Nil
  then show ?case by simp
next
  case (Cons b bs)
  from visit_neighbor_tags[of c sw hs gi gname gp st b] obtain n1 where
    n1: "snd (visit_neighbor c sw hs gi gname gp st b) = snd st @ n1"
    "\<forall>ev \<in> set n1. \<forall>n tag. call_tag ev = Some (n, tag) \<longrightarrow> n = gname \<and> tag = gi"
    by blast
  from Cons.IH[of "visit_neighbor c sw hs gi gname gp st b"] obtain n2 where
    n2: "snd (foldl (visit_neighbor c sw hs gi gname gp) (visit_neighbor c sw hs gi gname gp st b) bs)
           = snd (visit_neighbor c sw hs gi gname gp st b) @ n2"
    "\<forall>ev \<in> set n2. \<forall>n tag. call_tag ev = Some (n, tag) \<longrightarrow> n = gname \<and> tag = gi"
    by blast
  have "snd (foldl (visit_neighbor c sw hs gi gname gp) st (b # bs)) = snd st @ (n1 @ n2)"
    using n1(1) n2(1) by simp
  moreover have "\<forall>ev \<in> set (n1 @ n2). \<forall>n tag. call_tag ev = Some (n, tag) \<longrightarrow> n = gname \<and> tag = gi"
    using n1(2) n2(2) by auto
  ultimately show ?case by blast
qed

lemma swap_vars_loop_tags:
  "\<exists>new. snd (swap_vars_loop c sw hs gi rest st) = snd st @ new
     \<and> (\<forall>ev \<in> set new. \<forall>n tag. call_tag ev = Some (n, tag) \<longrightarrow>
           (\<exists>k < length rest. n = fst (rest ! k) \<and> tag = gi + int k + 1))"
proof (induction rest arbitrary: gi st)
  case Nil
  then show ?case by simp
next
  case (Cons p rest)
  obtain gname gp where p: "p = (gname, gp)" by (cases p)
  let ?st1 = "foldl (visit_neighbor c sw hs (gi + 1) gname gp) st (the (map_of (mpiData c) gname))"
  from visit_neighbors_tags[of c sw hs "gi + 1" gname gp st] obtain n1 where
    n1: "snd ?st1 = snd st @ n1"
    "\<forall>ev \<in> set n1. \<forall>n tag. call_tag ev = Some (n, tag) \<longrightarrow> n = gname \<and> tag = gi + 1"
    by blast
  from Cons.IH[of "gi + 1" ?st1] obtain n2 where
    n2: "snd (swap_vars_loop c sw hs (gi + 1) rest ?st1) = snd ?st1 @ n2"
    "\<forall>ev \<in> set n2. \<forall>n tag. call_tag ev = Some (n, tag) \<longrightarrow>
           (\<exists>k < length rest. n = fst (rest ! k) \<and> tag = gi + 1 + int k + 1)"
    by blast
  have e: "snd (swap_vars_loop c sw hs gi (p # rest) st) = snd st @ (n1 @ n2)"
    using n1(1) n2(1) p by simp
  have "\<forall>ev \<in> set (n1 @ n2). \<forall>n tag. call_tag ev = Some (n, tag) \<longrightarrow>
           (\<exists>k < length (p # rest). n = fst ((p # rest) ! k) \<and> tag = gi + int k + 1)"
  proof (intro ballI allI impI)
    fix ev n tag assume ev: "ev \<in> set (n1 @ n2)" "call_tag ev = Some (n, tag)"
    show "\<exists>k < length (p # rest). n = fst ((p # rest) ! k) \<and> tag = gi + int k + 1"
    proof (cases "ev \<in> set n1")
      case True
      then have "n = gname \<and> tag = gi + 1" using n1(2) ev(2) by blast
      then show ?thesis using p by (intro exI[of _ 0]) simp
    next
      case False
      then have "ev \<in> set n2" using ev(1) by simp
      then obtain k where "k < length rest" "n = fst (rest ! k)" "tag = gi + 1 + int k + 1"
        using n2(2) ev(2) by blast
      then show ?thesis by (intro exI[of _ "Suc k"]) simp
    qed
  qed
  with e show ?case by blast
qed

lemma halo_steps_tags:
  "\<exists>new. snd (foldl (\<lambda>st hs. swap_vars_loop c sw hs 0 vs st) st0 hss) = snd st0 @ new
     \<and> (\<forall>ev \<in> set new. \<forall>n tag. call_tag ev = Some (n, tag) \<longrightarrow>
           (\<exists>k < length vs. n = fst (vs ! k) \<and> tag = int k + 1))"
proof (induction hss arbitrary: st0)
  case Nil
  then show ?case by simp
next
  case (Cons hs hss)
  from swap_vars_loop_tags[of c sw hs 0 vs st0] obtain n1 where
    n1: "snd (swap_vars_loop c sw hs 0 vs st0) = snd st0 @ n1"
    "\<forall>ev \<in> set n1. \<forall>n tag. call_tag ev = Some (n, tag) \<longrightarrow>
           (\<exists>k < length vs. n = fst (vs ! k) \<and> tag = int k + 1)"
    by auto
  from Cons.IH[of "swap_vars_loop c sw hs 0 vs st0"] obtain n2 where
    n2: "snd (foldl (\<lambda>st hs. swap_vars_loop c sw hs 0 vs st) (swap_vars_loop c sw hs 0 vs st0) hss)
           = snd (swap_vars_loop c sw hs 0 vs st0) @ n2"
    "\<forall>ev \<in> set n2. \<forall>n tag. call_tag ev = Some (n, tag) \<longrightarrow>
           (\<exists>k < length vs. n = fst (vs ! k) \<and> tag = int k + 1)"
    by blast
  have "snd (foldl (\<lambda>st hs. swap_vars_loop c sw hs 0 vs st) st0 (hs # hss)) = snd st0 @ (n1 @ n2)"
    using n1(1) n2(1) by simp
  moreover have "\<forall>ev \<in> set (n1 @ n2). \<forall>n tag. call_tag ev = Some (n, tag) \<longrightarrow>
           (\<exists>k < length vs. n = fst (vs ! k) \<and> tag = int k + 1)"
    using n1(2) n2(2) by auto
  ultimately show ?case by blast
qed

lemma exchange_halos_tags:
  assumes "ev \<in> set (snd (exchange_halos c))" "call_tag ev = Some (n, tag)"
  shows "n \<in> swap_names c \<and> tag = name_ordinal (swap_names c) n"
proof -
  let ?sw = "vars_to_swap c"
  let ?vs = "varsToSwap ?sw"
  from assms(1) have ev: "ev \<in> set (snd (foldl (\<lambda>st hs. swap_vars_loop c ?sw hs 0 ?vs st)
                       (varPtrs c, []) (steps_to_do c ?sw)))"
    by (auto simp: exchange_halos_def Let_def split: if_splits)
  from halo_steps_tags[of c ?sw ?vs "(varPtrs c, [])" "steps_to_do c ?sw"]
  have "\<forall>ev \<in> set (snd (foldl (\<lambda>st hs. swap_vars_loop c ?sw hs 0 ?vs st)
                       (varPtrs c, []) (steps_to_do c ?sw))). \<forall>n tag. call_tag ev = Some (n, tag) \<longrightarrow>
           (\<exists>k < length ?vs. n = fst (?vs ! k) \<and> tag = int k + 1)"
    by auto
  from this[rule_format, OF ev assms(2)]
  obtain k where k: "k < length ?vs" "n = fst (?vs ! k)" "tag = int k + 1"
    by blast
  have nk: "n = map fst ?vs ! k" using k by simp
  have kl: "k < length (map fst ?vs)" using k by simp
  have o: "name_ordinal (set (map fst ?vs)) n = int k + 1"
    using sorted_ordinal[OF vars_to_swap_keys(2)[of c] kl] nk by simp
  have m: "n \<in> set (map fst ?vs)"
    unfolding nk using kl by (rule nth_mem)
  show ?thesis using k(3) o m vars_to_swap_keys(1)[of c] by simp
qed


text \<open>
  C3 (as amended). In a call of \<^verbatim>\<open>exchange_halos\<close>, the tag of every \<^verbatim>\<open>MPI_Irecv\<close> and of every
  \<^verbatim>\<open>MPI_Isend\<close> for a variable is the 1-based ordinal of the variable's name among the names
  of the variables swapped in that call (the variables that are not scratch, have MPI
  buffers and have a dirty step), in increasing order of the names. So the receive and the
  send of a variable carry the same tag, and two ranks that swap the same set of variables
  use the same tag for each of them.
\<close>

theorem halo_tag_is_swap_ordinal:
  "(\<forall>n r tag. MPI_Irecv n r tag \<in> set (snd (exchange_halos c))
                \<or> MPI_Isend n r tag \<in> set (snd (exchange_halos c))
        \<longrightarrow> n \<in> swap_names c \<and> tag = name_ordinal (swap_names c) n)
   \<and> (\<forall>c2 n r r2 a b. swap_names c2 = swap_names c
          \<and> MPI_Isend n r a \<in> set (snd (exchange_halos c))
          \<and> MPI_Irecv n r2 b \<in> set (snd (exchange_halos c2))
        \<longrightarrow> a = b)"
proof -
  have s: "MPI_Isend n r tag \<in> set (snd (exchange_halos c'))
             \<Longrightarrow> n \<in> swap_names c' \<and> tag = name_ordinal (swap_names c') n" for c' n r tag
    using exchange_halos_tags[of "MPI_Isend n r tag" c' n tag] by simp
  have r: "MPI_Irecv n r tag \<in> set (snd (exchange_halos c'))
             \<Longrightarrow> n \<in> swap_names c' \<and> tag = name_ordinal (swap_names c') n" for c' n r tag
    using exchange_halos_tags[of "MPI_Irecv n r tag" c' n tag] by simp
  show ?thesis
    using s r by metis
qed

lemma three_vars_calls:
  "snd (exchange_halos (three_vars True False True))
     = [MPI_Irecv ''a'' 1 1, MPI_Irecv ''c'' 1 2, Pack_send_buf ''a'' 1 0 0, MPI_Isend ''a'' 1 1,
        Pack_send_buf ''c'' 1 0 0, MPI_Isend ''c'' 1 2, MPI_Wait_recv ''a'' 1,
        Unpack_recv_buf ''a'' 1 0 0, MPI_Wait_recv ''c'' 1, Unpack_recv_buf ''c'' 1 0 0,
        MPI_Wait_send ''a'' 1, MPI_Wait_send ''c'' 1]"
  "snd (exchange_halos (three_vars False False True))
     = [MPI_Irecv ''c'' 1 1, Pack_send_buf ''c'' 1 0 0, MPI_Isend ''c'' 1 1,
        MPI_Wait_recv ''c'' 1, Unpack_recv_buf ''c'' 1 0 0, MPI_Wait_send ''c'' 1]"
  by code_simp+

theorem halo_tag_is_swap_ordinal_witness:
  "MPI_Isend ''c'' 1 2 \<in> set (snd (exchange_halos (three_vars True False True)))
   \<and> MPI_Irecv ''c'' 1 2 \<in> set (snd (exchange_halos (three_vars True False True)))
   \<and> ''c'' \<in> swap_names (three_vars True False True)
   \<and> name_ordinal (swap_names (three_vars True False True)) ''c'' = 2"
proof -
  have m: "MPI_Isend ''c'' 1 2 \<in> set (snd (exchange_halos (three_vars True False True)))"
    "MPI_Irecv ''c'' 1 2 \<in> set (snd (exchange_halos (three_vars True False True)))"
    by (simp_all add: three_vars_calls)
  from halo_tag_is_swap_ordinal[of "three_vars True False True"] m(1)
  have "''c'' \<in> swap_names (three_vars True False True)
        \<and> 2 = name_ordinal (swap_names (three_vars True False True)) ''c''"
    by blast
  then show ?thesis using m by simp
qed

text \<open>
  The tag is not a fixed ordinal of the variable in the map of the variables: with the
  same three variables \<open>a\<close>, \<open>b\<close>, \<open>c\<close>, all with MPI buffers, the tag of \<open>c\<close> is 1 when only
  \<open>c\<close> is dirty and 2 when \<open>a\<close> and \<open>c\<close> are, while \<open>c\<close> is the third name of the map.
\<close>

theorem halo_tag_counterexample:
  "map var_name (varPtrs (three_vars False False True)) = [''a'', ''b'', ''c'']
   \<and> map var_name (varPtrs (three_vars True False True)) = [''a'', ''b'', ''c'']
   \<and> map fst (mpiData (three_vars False False True)) = [''a'', ''b'', ''c'']
   \<and> name_ordinal (set [''a'', ''b'', ''c'']) ''c'' = 3
   \<and> MPI_Isend ''c'' 1 1 \<in> set (snd (exchange_halos (three_vars False False True)))
   \<and> MPI_Irecv ''c'' 1 1 \<in> set (snd (exchange_halos (three_vars False False True)))
   \<and> MPI_Isend ''c'' 1 2 \<in> set (snd (exchange_halos (three_vars True False True)))
   \<and> MPI_Irecv ''c'' 1 2 \<in> set (snd (exchange_halos (three_vars True False True)))"
proof -
  have "sorted_wrt (<) [''a'', ''b'', ''c'']" by simp
  from sorted_ordinal[OF this, of 2]
  have "name_ordinal (set [''a'', ''b'', ''c'']) ''c'' = 3" by simp
  then show ?thesis
    by (simp add: three_vars_calls) (simp add: three_vars_def)
qed

section \<open>Facts about the dirty flags\<close>





















lemma one_var_run:
  "update_vars one_pack None 1 2 True one_var
     = [\<lparr>var_name = ''u'', is_scratch = False, uses_step_dim = True, step_alloc_size = 2,
         first_valid_step = 1, dirty_steps = [True, True]\<rparr>]"
  "update_valid_step (one_var ! 0) 2
     = \<lparr>var_name = ''u'', is_scratch = False, uses_step_dim = True, step_alloc_size = 2,
         first_valid_step = 1, dirty_steps = [False, True]\<rparr>"
  by code_simp+


section \<open>Facts about run\_solution\<close>

text \<open>
  C4. \<^verbatim>\<open>run_solution\<close> runs the hooks registered to run before it and then checks
  \<^verbatim>\<open>is_prepared()\<close>. If the solution is not prepared then, it throws the exception of
  \<^verbatim>\<open>run_solution\<close> without \<^verbatim>\<open>prepare_solution\<close>, of the kind \<open>SchedulingError\<close>, in the state
  that the hooks left: no rank loops, no update of the variables and no halo exchange have
  been run. With no such hook the state is the one of the call.
\<close>

theorem run_solution_unprepared_throws:
  "(\<not> prepared (call_2idx_hooks Before_hook before_hooks first_step_index last_step_index c)
      \<longrightarrow> run_solution before_hooks after_hooks c first_step_index last_step_index
           = (Inl Run_without_prepare,
              call_2idx_hooks Before_hook before_hooks first_step_index last_step_index c))
   \<and> (\<not> prepared c
      \<longrightarrow> run_solution [] after_hooks c first_step_index last_step_index
             = (Inl Run_without_prepare, c)
          \<and> filter is_computation
               (run_trace (snd (run_solution [] after_hooks c first_step_index last_step_index)))
             = filter is_computation (run_trace c))
   \<and> kind_of Run_without_prepare = Some SchedulingError"
proof -
  have h: "call_2idx_hooks Before_hook [] first_step_index last_step_index c = c"
    by (simp add: call_2idx_hooks_def)
  have a: "\<not> prepared (call_2idx_hooks Before_hook hs first_step_index last_step_index c)
      \<Longrightarrow> run_solution hs after_hooks c first_step_index last_step_index
           = (Inl Run_without_prepare,
              call_2idx_hooks Before_hook hs first_step_index last_step_index c)" for hs
    by (simp add: run_solution_def Let_def)
  from a[of before_hooks] a[of "[]"] h show ?thesis by simp
qed

lemma prepared_example_runs:
  "run_trace (snd (run_solution [] [] (unprepared_example\<lparr>prepared := True\<rparr>) 0 0))
     = [Set_region_threads, Exchange_halos True True True,
        Rank_loops (Some 0) [0, 0] [1, 64] [1, 32] 0 1 True True True (- 1),
        Update_vars (Some 0) 0 1 True, Exchange_halos True True True, Eval_auto_tuner 1]"
  by code_simp

theorem run_solution_unprepared_throws_witness:
  "\<not> prepared unprepared_example
   \<and> \<not> prepared (call_2idx_hooks Before_hook [] 0 1 unprepared_example)
   \<and> run_solution [] [] unprepared_example 0 1 = (Inl Run_without_prepare, unprepared_example)
   \<and> filter is_computation (run_trace (snd (run_solution [] [] unprepared_example 0 1))) = []"
proof -
  have p: "\<not> prepared unprepared_example" by (simp add: unprepared_example_def)
  have q: "\<not> prepared (call_2idx_hooks Before_hook [] 0 1 unprepared_example)"
    by (simp add: call_2idx_hooks_def unprepared_example_def)
  have r: "run_trace unprepared_example = []" by (simp add: unprepared_example_def)
  from run_solution_unprepared_throws[of "[]" 0 1 unprepared_example "[]"] p q r
  show ?thesis by (simp add: call_2idx_hooks_def)
qed

section \<open>Facts about the phases and shapes of temporal blocking\<close>

lemma length_subsets_of: "length (subsets_of xs k) = length xs choose k"
  by (induction xs k rule: subsets_of.induct) simp_all

lemma subsets_of_length: "ys \<in> set (subsets_of xs k) \<Longrightarrow> length ys = k"
  by (induction xs k arbitrary: ys rule: subsets_of.induct) auto

lemma subsets_of_subset: "ys \<in> set (subsets_of xs k) \<Longrightarrow> set ys \<subseteq> set xs"
  by (induction xs k arbitrary: ys rule: subsets_of.induct) fastforce+

lemma subsets_of_distinct_elem: "distinct xs \<Longrightarrow> ys \<in> set (subsets_of xs k) \<Longrightarrow> distinct ys"
proof (induction xs k arbitrary: ys rule: subsets_of.induct)
  case (3 x xs k)
  from "3.prems"(2) consider zs where "ys = x # zs" "zs \<in> set (subsets_of xs k)"
    | "ys \<in> set (subsets_of xs (Suc k))"
    by auto
  then show ?case
  proof cases
    case 1
    then have "distinct zs" "set zs \<subseteq> set xs"
      using "3.IH"(1) "3.prems"(1) subsets_of_subset by auto
    then show ?thesis using 1 "3.prems"(1) by auto
  next
    case 2
    then show ?thesis using "3.IH"(2) "3.prems"(1) by simp
  qed
qed simp_all

lemma subsets_of_sorted: "sorted xs \<Longrightarrow> ys \<in> set (subsets_of xs k) \<Longrightarrow> sorted ys"
proof (induction xs k arbitrary: ys rule: subsets_of.induct)
  case (3 x xs k)
  from "3.prems"(2) consider zs where "ys = x # zs" "zs \<in> set (subsets_of xs k)"
    | "ys \<in> set (subsets_of xs (Suc k))"
    by auto
  then show ?case
  proof cases
    case 1
    then have "sorted zs" "set zs \<subseteq> set xs"
      using "3.IH"(1) "3.prems"(1) subsets_of_subset by auto
    then show ?thesis using 1 "3.prems"(1) by auto
  next
    case 2
    then show ?thesis using "3.IH"(2) "3.prems"(1) by simp
  qed
qed simp_all

lemma distinct_subsets_of: "distinct xs \<Longrightarrow> distinct (subsets_of xs k)"
proof (induction xs k rule: subsets_of.induct)
  case (3 x xs k)
  have "x \<notin> set ys" if "ys \<in> set (subsets_of xs (Suc k))" for ys
    using subsets_of_subset[OF that] "3.prems" by auto
  then have "set (map ((#) x) (subsets_of xs k)) \<inter> set (subsets_of xs (Suc k)) = {}"
    by fastforce
  moreover have "distinct (map ((#) x) (subsets_of xs k))"
    using 3 by (simp add: distinct_map)
  ultimately show ?case using 3 by simp
qed simp_all

lemma update_True_nth:
  "i < length m \<Longrightarrow> m[a := True] ! i \<longleftrightarrow> a = i \<or> m ! i"
  by (cases "a = i") simp_all

lemma set_bridge_mask_fold_length:
  "length (foldl (\<lambda>m d. m[d - 1 := True]) m0 ds) = length m0"
  by (induction ds arbitrary: m0) simp_all

lemma set_bridge_mask_fold_nth:
  "i < length m0 \<Longrightarrow>
     foldl (\<lambda>m d. m[d - 1 := True]) m0 ds ! i \<longleftrightarrow> m0 ! i \<or> (\<exists>d \<in> set ds. d - 1 = i)"
proof (induction ds arbitrary: m0)
  case Nil
  then show ?case by simp
next
  case (Cons d ds)
  have "foldl (\<lambda>m d. m[d - 1 := True]) (m0[d - 1 := True]) ds ! i
          \<longleftrightarrow> m0[d - 1 := True] ! i \<or> (\<exists>d \<in> set ds. d - 1 = i)"
    using Cons.IH[of "m0[d - 1 := True]"] Cons.prems by simp
  then show ?case using update_True_nth[OF Cons.prems, of "d - 1"] by auto
qed

lemma set_bridge_mask_length: "length (set_bridge_mask n ds) = n"
  unfolding set_bridge_mask_def set_bridge_mask_fold_length by simp

lemma set_bridge_mask_nth:
  assumes "i < n"
  shows "set_bridge_mask n ds ! i \<longleftrightarrow> (\<exists>d \<in> set ds. d - 1 = i)"
proof -
  have "i < length (replicate n False)" using assms by simp
  from set_bridge_mask_fold_nth[OF this, of ds] assms
  show ?thesis unfolding set_bridge_mask_def by simp
qed

text \<open>The combinations of \<open>1 .. n\<close> and their masks.\<close>

lemma dim_numbers_props:
  "length (dim_numbers n) = n" "distinct (dim_numbers n)" "sorted (dim_numbers n)"
  "set (dim_numbers n) = {1..n}"
  unfolding dim_numbers_def
  by (simp_all del: upt_Suc add: atLeastLessThanSuc_atLeastAtMost)

lemma combination_props:
  assumes "x < n choose p"
  shows "combination n p (x + 1) \<in> set (subsets_of (dim_numbers n) p)"
  using assms by (simp add: combination_def length_subsets_of dim_numbers_props)

lemma combo_mask_count:
  assumes "ds \<in> set (subsets_of (dim_numbers n) p)"
  shows "length (filter id (set_bridge_mask n ds)) = p"
proof -
  have d: "distinct ds" "length ds = p" "set ds \<subseteq> {1..n}"
    using subsets_of_distinct_elem[OF dim_numbers_props(2) assms] subsets_of_length[OF assms]
      subsets_of_subset[OF assms] dim_numbers_props(4)[of n]
    by simp_all
  have "{i. i < n \<and> set_bridge_mask n ds ! i} = (\<lambda>d. d - 1) ` set ds"
  proof (intro set_eqI iffI)
    fix i assume "i \<in> {i. i < n \<and> set_bridge_mask n ds ! i}"
    then show "i \<in> (\<lambda>d. d - 1) ` set ds" using set_bridge_mask_nth[of i n ds] by auto
  next
    fix i assume "i \<in> (\<lambda>d. d - 1) ` set ds"
    then obtain e where e: "e \<in> set ds" "i = e - 1" by auto
    then have "1 \<le> e \<and> e \<le> n" using d(3) by auto
    then have "i < n" using e(2) by arith
    then show "i \<in> {i. i < n \<and> set_bridge_mask n ds ! i}"
      using set_bridge_mask_nth[of i n ds] e by auto
  qed
  moreover have "inj_on (\<lambda>d. d - 1) (set ds)"
  proof (rule inj_onI)
    fix x y assume "x \<in> set ds" "y \<in> set ds" "x - 1 = y - 1"
    moreover from this d(3) have "1 \<le> x" "1 \<le> y" by auto
    ultimately show "x = y" by arith
  qed
  ultimately have "card {i. i < n \<and> set_bridge_mask n ds ! i} = p"
    using d(1,2) by (simp add: card_image distinct_card)
  then show ?thesis
    by (simp add: length_filter_conv_card set_bridge_mask_length)
qed

lemma combo_mask_inj:
  assumes "ds \<in> set (subsets_of (dim_numbers n) p)" "es \<in> set (subsets_of (dim_numbers n) p)"
    "set_bridge_mask n ds = set_bridge_mask n es"
  shows "ds = es"
proof -
  have d: "distinct ds" "sorted ds" "set ds \<subseteq> {1..n}"
    using subsets_of_distinct_elem[OF dim_numbers_props(2) assms(1)]
      subsets_of_sorted[OF dim_numbers_props(3) assms(1)]
      subsets_of_subset[OF assms(1)] dim_numbers_props(4)[of n] by simp_all
  have e: "distinct es" "sorted es" "set es \<subseteq> {1..n}"
    using subsets_of_distinct_elem[OF dim_numbers_props(2) assms(2)]
      subsets_of_sorted[OF dim_numbers_props(3) assms(2)]
      subsets_of_subset[OF assms(2)] dim_numbers_props(4)[of n] by simp_all
  have m: "a \<in> set zs \<longleftrightarrow> set_bridge_mask n zs ! (a - 1)" if "set zs \<subseteq> {1..n}" "1 \<le> a" "a \<le> n"
    for a zs
  proof -
    have "a - 1 < n" using that by simp
    from set_bridge_mask_nth[OF this, of zs]
    have "set_bridge_mask n zs ! (a - 1) \<longleftrightarrow> (\<exists>d \<in> set zs. d - 1 = a - 1)" .
    moreover have "(\<exists>d \<in> set zs. d - 1 = a - 1) \<longleftrightarrow> a \<in> set zs"
    proof
      assume "\<exists>d \<in> set zs. d - 1 = a - 1"
      then obtain d where "d \<in> set zs" "d - 1 = a - 1" by blast
      moreover from this that have "1 \<le> d" by auto
      ultimately show "a \<in> set zs" using that(2) by (simp add: eq_diff_iff)
    qed auto
    ultimately show ?thesis by simp
  qed
  have "set ds = set es"
  proof (intro set_eqI)
    fix a
    show "a \<in> set ds \<longleftrightarrow> a \<in> set es"
    proof (cases "1 \<le> a \<and> a \<le> n")
      case True
      then show ?thesis using m[OF d(3), of a] m[OF e(3), of a] assms(3) by simp
    next
      case False
      then show ?thesis using d(3) e(3) by auto
    qed
  qed
  then show ?thesis using d e by (simp add: sorted_distinct_set_unique)
qed

lemma block_calls_masks:
  assumes "tb_steps c \<noteq> 0"
  shows "map call_mask (calc_block_shapes c phase)
           = map (set_bridge_mask (nddims c)) (subsets_of (dim_numbers (nddims c)) phase)"
proof -
  let ?cs = "subsets_of (dim_numbers (nddims c)) phase"
  let ?N = "nddims c choose phase"
  have n: "length ?cs = ?N"
    by (simp add: length_subsets_of dim_numbers_props)
  have "map call_mask (calc_block_shapes c phase)
          = map (\<lambda>shape. set_bridge_mask (nddims c) (combination (nddims c) phase (shape + 1)))
              [0..<?N]"
    using assms by (simp add: calc_block_shapes_def choose_fn_def Let_def comp_def)
  also have "\<dots> = map (\<lambda>shape. set_bridge_mask (nddims c) (?cs ! shape)) [0..<?N]"
    by (simp add: combination_def)
  also have "\<dots> = map (set_bridge_mask (nddims c)) (map (\<lambda>shape. ?cs ! shape) [0..<length ?cs])"
    unfolding n by (simp add: comp_def)
  also have "\<dots> = map (set_bridge_mask (nddims c)) ?cs"
    by (simp only: map_nth)
  finally show ?thesis .
qed

lemma block_calls_length:
  "tb_steps c \<noteq> 0 \<Longrightarrow> length (calc_block_shapes c phase) = nddims c choose phase"
  by (simp add: calc_block_shapes_def choose_fn_def Let_def)

lemma block_calls_distinct:
  assumes "tb_steps c \<noteq> 0"
  shows "distinct (map call_mask (calc_block_shapes c phase))"
proof -
  have "inj_on (set_bridge_mask (nddims c)) (set (subsets_of (dim_numbers (nddims c)) phase))"
    using combo_mask_inj by (auto simp add: inj_on_def)
  moreover have "distinct (subsets_of (dim_numbers (nddims c)) phase)"
    by (simp add: distinct_subsets_of dim_numbers_props)
  ultimately show ?thesis
    unfolding block_calls_masks[OF assms] by (simp add: distinct_map)
qed

lemma block_calls_bits:
  assumes "tb_steps c \<noteq> 0" "m \<in> set (map call_mask (calc_block_shapes c phase))"
  shows "length m = nddims c \<and> length (filter id m) = phase"
proof -
  from assms(2) obtain ds where "ds \<in> set (subsets_of (dim_numbers (nddims c)) phase)"
    "m = set_bridge_mask (nddims c) ds"
    unfolding block_calls_masks[OF assms(1)] by auto
  then show ?thesis using combo_mask_count set_bridge_mask_length by simp
qed

lemma region_stride_phases:
  assumes "tb_steps c \<noteq> 0"
  shows "map call_phase
           (snd (calc_region_stride c m packs check_conds sel_bp rank_start rank_stop stride_t
                   st index_t))
         = map call_phase (snd st) @ [0..<nddims c + 1]"
proof -
  have "map (\<lambda>phase. call_phase (Region_loops np phase sn t0 t1)) [0..<nddims c + 1]
          = [0..<nddims c + 1]" for np sn t0 t1
    by (simp only: call_phase.simps map_ident)
  then show ?thesis
    using assms by (simp add: calc_region_stride_def Let_def comp_def del: upt_Suc)
qed

lemma region_strides_phases:
  assumes "tb_steps c \<noteq> 0"
  shows "map call_phase
           (snd (foldl (calc_region_stride c m packs check_conds sel_bp rank_start rank_stop
                          stride_t) st idxs))
         = map call_phase (snd st) @ concat (map (\<lambda>index_t. [0..<nddims c + 1]) idxs)"
proof (induction idxs arbitrary: st)
  case Nil
  then show ?case by simp
next
  case (Cons index_t idxs)
  show ?case
    unfolding foldl_Cons Cons.IH region_stride_phases[OF assms]
    by (simp del: upt_Suc)
qed

lemma calc_region_phases:
  assumes "tb_steps c \<noteq> 0"
  shows "\<exists>num_t. map call_phase (calc_region c m packs check_conds sel_bp rank_start rank_stop)
           = concat (replicate num_t [0..<nddims c + 1])"
proof -
  have r: "concat (map (\<lambda>index_t. xs) idxs) = concat (replicate (length idxs) xs)"
    for xs :: "nat list" and idxs :: "idx_t list"
    by (induction idxs) simp_all
  have "\<exists>idxs stride_t. calc_region c m packs check_conds sel_bp rank_start rank_stop
          = snd (foldl (calc_region_stride c m packs check_conds sel_bp rank_start rank_stop
                          stride_t) (0, []) idxs)"
    unfolding calc_region_def Let_def by blast
  then obtain idxs stride_t where
    "calc_region c m packs check_conds sel_bp rank_start rank_stop
          = snd (foldl (calc_region_stride c m packs check_conds sel_bp rank_start rank_stop
                          stride_t) (0, []) idxs)"
    by blast
  then have "map call_phase (calc_region c m packs check_conds sel_bp rank_start rank_stop)
           = concat (replicate (length idxs) [0..<nddims c + 1])"
    by (simp only: region_strides_phases[OF assms] r snd_conv list.map append_Nil)
  then show ?thesis by blast
qed

text \<open>
  C8. With temporal blocking (\<open>tb_steps\<close> not 0) in a domain of \<open>n = nddims\<close> dims, each
  iteration of the time loop of \<^verbatim>\<open>calc_region\<close> runs the region loops for the phases
  \<open>0, 1, .., n\<close>, in this order: \<open>n + 1\<close> phases; so \<^verbatim>\<open>calc_region\<close> runs this sequence of
  phases once for each time stride. In phase \<open>k\<close>, \<^verbatim>\<open>calc_block\<close> runs the block loops for
  \<open>C(n, k)\<close> shapes, whose bridge masks are distinct, have one bit for each dim and have
  exactly \<open>k\<close> bits set; phases 0 and \<open>n\<close> have one shape each.
\<close>

theorem tb_phases_and_shapes:
  assumes "tb_steps c \<noteq> 0"
  shows "map call_phase
           (snd (calc_region_stride c m packs check_conds sel_bp rank_start rank_stop stride_t
                   (shift_num, []) index_t))
         = [0..<nddims c + 1]
     \<and> (\<exists>num_t. map call_phase (calc_region c m packs check_conds sel_bp rank_start rank_stop)
           = concat (replicate num_t [0..<nddims c + 1]))
     \<and> length (calc_block_shapes c k) = nddims c choose k
     \<and> distinct (map call_mask (calc_block_shapes c k))
     \<and> (\<forall>bm \<in> set (map call_mask (calc_block_shapes c k)).
           length bm = nddims c \<and> length (filter id bm) = k)
     \<and> length (calc_block_shapes c 0) = 1
     \<and> length (calc_block_shapes c (nddims c)) = 1"
proof -
  have a: "map call_phase
           (snd (calc_region_stride c m packs check_conds sel_bp rank_start rank_stop stride_t
                   (shift_num, []) index_t))
         = [0..<nddims c + 1]"
    unfolding region_stride_phases[OF assms] by simp
  have b: "\<forall>bm \<in> set (map call_mask (calc_block_shapes c k)).
           length bm = nddims c \<and> length (filter id bm) = k"
    using block_calls_bits[OF assms] by blast
  have d: "length (calc_block_shapes c 0) = 1" "length (calc_block_shapes c (nddims c)) = 1"
    unfolding block_calls_length[OF assms] by simp_all
  show ?thesis
    using a calc_region_phases[OF assms] block_calls_length[OF assms]
      block_calls_distinct[OF assms] b d
    by (intro conjI)
qed

lemma tb3_example_calls:
  "map call_phase (calc_region tb3_example no_overlap [] False None [0, 0, 0, 0] [4, 64, 64, 64])
     = [0, 1, 2, 3, 0, 1, 2, 3]"
  "map call_steps (calc_region tb3_example no_overlap [] False None [0, 0, 0, 0] [4, 64, 64, 64])
     = [(0, 2), (0, 2), (0, 2), (0, 2), (2, 4), (2, 4), (2, 4), (2, 4)]"
  "calc_block_shapes tb3_example 0 = [Block_loops 0 1 0 [False, False, False]]"
  "calc_block_shapes tb3_example 1
     = [Block_loops 1 3 0 [True, False, False], Block_loops 1 3 1 [False, True, False],
        Block_loops 1 3 2 [False, False, True]]"
  "calc_block_shapes tb3_example 2
     = [Block_loops 2 3 0 [True, True, False], Block_loops 2 3 1 [True, False, True],
        Block_loops 2 3 2 [False, True, True]]"
  "calc_block_shapes tb3_example 3 = [Block_loops 3 1 0 [True, True, True]]"
  by code_simp+

theorem tb_phases_and_shapes_witness:
  "tb_steps tb3_example \<noteq> 0
   \<and> map call_phase
        (snd (calc_region_stride tb3_example no_overlap [] False None [0, 0, 0, 0]
                [4, 64, 64, 64] 2 (0, []) 0))
      = [0, 1, 2, 3]
   \<and> length (calc_block_shapes tb3_example 2) = 3
   \<and> distinct (map call_mask (calc_block_shapes tb3_example 2))
   \<and> map call_mask (calc_block_shapes tb3_example 2)
      = [[True, True, False], [True, False, True], [False, True, True]]"
proof -
  have t: "tb_steps tb3_example \<noteq> 0" by (simp add: tb3_example_def)
  have n: "nddims tb3_example = 3" by (simp add: tb3_example_def)
  have u: "[0..<nddims tb3_example + 1] = [0, 1, 2, 3]"
    unfolding n by (simp add: upt_rec)
  have v: "nddims tb3_example choose 2 = 3"
    unfolding n by (simp add: numeral_3_eq_3 numeral_2_eq_2)
  note w = tb_phases_and_shapes[OF t, of no_overlap "[]" False None "[0, 0, 0, 0]"
      "[4, 64, 64, 64]" 2 0 0 2]
  from w show ?thesis
    unfolding u v using t by (simp add: tb3_example_calls)
qed

section \<open>Facts about find\_bounding\_box\<close>

lemma is_in_bb_iff:
  "is_in_bb bb pt \<longleftrightarrow>
     (\<forall>j < length (bb_begin bb). bb_begin bb ! j \<le> pt ! j \<and> pt ! j < bb_end bb ! j)"
  by (auto simp add: is_in_bb_def list_all_iff)

lemma wf_bb_iff:
  "wf_bb n bb \<longleftrightarrow> length (bb_begin bb) = n \<and> length (bb_end bb) = n
     \<and> (\<forall>j < n. bb_begin bb ! j < bb_end bb ! j)"
  by (auto simp add: wf_bb_def list_all_iff)

lemma add_ofs_length: "length (add_ofs pt ofs) = min (length pt) (length ofs)"
  by (simp add: add_ofs_def)

lemma add_ofs_nth:
  "j < length pt \<Longrightarrow> j < length ofs \<Longrightarrow> add_ofs pt ofs ! j = pt ! j + int (ofs ! j)"
  by (simp add: add_ofs_def)

lemma len_to_length: "length (len_to e b) = min (length e) (length b)"
  by (simp add: len_to_def)

lemma len_to_nth:
  "j < length e \<Longrightarrow> j < length b \<Longrightarrow> len_to e b ! j = nat (e ! j - b ! j)"
  by (simp add: len_to_def)

lemma add_ofs_len_to:
  assumes "length p = length b" "\<forall>j < length b. b ! j \<le> p ! j"
  shows "add_ofs b (len_to p b) = p"
  using assms by (intro nth_equalityI) (simp_all add: add_ofs_length len_to_length add_ofs_nth len_to_nth)

lemma add_ofs_zero:
  assumes "length q = length b" "\<forall>j < length q. q ! j = 0"
  shows "add_ofs b q = b"
  using assms by (intro nth_equalityI) (simp_all add: add_ofs_length add_ofs_nth)

text \<open>The points of the rect of lengths \<open>r\<close> at \<open>b\<close> are the offsets of the box \<open>r\<close> added to \<open>b\<close>.\<close>

lemma rect_points:
  assumes "length r = length b"
  shows "bb_points \<lparr>bb_begin = b, bb_end = add_ofs b r\<rparr> = add_ofs b ` set (all_points r)"
proof (intro set_eqI iffI)
  fix p assume "p \<in> bb_points \<lparr>bb_begin = b, bb_end = add_ofs b r\<rparr>"
  then have l: "length p = length b"
    and i: "\<forall>j < length b. b ! j \<le> p ! j \<and> p ! j < add_ofs b r ! j"
    by (simp_all add: bb_points_def is_in_bb_iff)
  have "len_to p b \<in> set (all_points r)"
    unfolding all_points_iff using l i assms
    by (auto simp add: len_to_length len_to_nth add_ofs_nth)
  moreover have "add_ofs b (len_to p b) = p"
    using l i by (intro add_ofs_len_to) simp_all
  ultimately show "p \<in> add_ofs b ` set (all_points r)" by force
next
  fix p assume "p \<in> add_ofs b ` set (all_points r)"
  then obtain q where q: "q \<in> set (all_points r)" "p = add_ofs b q" by blast
  then have "length q = length r" "\<forall>j < length r. q ! j < r ! j"
    by (simp_all add: all_points_iff)
  then show "p \<in> bb_points \<lparr>bb_begin = b, bb_end = add_ofs b r\<rparr>"
    using q(2) assms by (simp add: bb_points_def is_in_bb_iff add_ofs_length add_ofs_nth)
qed

text \<open>The order of the visit with the first dim innermost: the last dim is outermost.\<close>

lemma first_inner_snoc:
  "all_points_first_inner (ls @ [m])
     = concat (map (\<lambda>i. map (\<lambda>p. p @ [i]) (all_points_first_inner ls)) [0..<m])"
  by (simp add: all_points_first_inner_def map_concat comp_def)

lemma find_append_case:
  "find P (xs @ ys) = (case find P xs of None \<Rightarrow> find P ys | Some x \<Rightarrow> Some x)"
  by (induction xs) simp_all

lemma find_not_before:
  assumes "find P (xs @ ys) = Some e" "e \<notin> set xs"
  shows "\<forall>x \<in> set xs. \<not> P x"
proof (rule ccontr)
  assume "\<not> (\<forall>x \<in> set xs. \<not> P x)"
  then obtain x where "x \<in> set xs" "P x" by blast
  then obtain y where y: "find P xs = Some y"
    by (cases "find P xs") (auto simp add: find_None_iff)
  then have "y \<in> set xs" by (auto simp add: find_Some_iff)
  moreover have "find P (xs @ ys) = Some y" using y by (simp add: find_append_case)
  ultimately show False using assms by simp
qed

lemma first_inner_before:
  assumes "find P (all_points_first_inner (ls @ [m])) = Some e"
    "q \<in> set (all_points (ls @ [m]))" "q ! length ls < e ! length ls"
  shows "\<not> P q"
proof -
  let ?blk = "\<lambda>i. map (\<lambda>p. p @ [i]) (all_points_first_inner ls)"
  let ?k = "e ! length ls"
  have fi: "set (all_points_first_inner xs) = set (all_points xs)" for xs
    using visit_order_set[of True xs] by (simp add: visit_order_def)
  have "e \<in> set (all_points_first_inner (ls @ [m]))"
    using assms(1) by (auto simp add: find_Some_iff)
  then have "e \<in> set (all_points (ls @ [m]))" by (simp only: fi)
  then have "?k < m"
    unfolding all_points_iff by (auto simp add: nth_append dest: spec[of _ "length ls"])
  then have sp: "[0..<m] = [0..<?k] @ [?k..<m]"
    by (metis le_add_diff_inverse less_imp_le_nat upt_add_eq_append zero_le)
  have eq: "all_points_first_inner (ls @ [m])
              = concat (map ?blk [0..<?k]) @ concat (map ?blk [?k..<m])"
    unfolding first_inner_snoc by (subst sp) simp
  have last_small: "x ! length ls < ?k" if "x \<in> set (concat (map ?blk [0..<?k]))" for x
  proof -
    from that obtain i p where "i < ?k" "p \<in> set (all_points_first_inner ls)" "x = p @ [i]"
      by auto
    moreover from this have "length p = length ls" by (simp add: fi all_points_iff)
    ultimately show ?thesis by (simp add: nth_append)
  qed
  then have "e \<notin> set (concat (map ?blk [0..<?k]))" by blast
  from find_not_before[OF assms(1)[unfolded eq] this]
  have nb: "\<forall>x \<in> set (concat (map ?blk [0..<?k])). \<not> P x" .
  have ql: "length q = Suc (length ls)" and qb: "\<forall>i < Suc (length ls). q ! i < (ls @ [m]) ! i"
    using assms(2) by (simp_all add: all_points_iff)
  then have "q \<noteq> []" by auto
  then have qs: "q = butlast q @ [q ! length ls]"
    using ql by (metis append_butlast_last_id diff_Suc_1 last_conv_nth)
  have "butlast q ! i < ls ! i" if "i < length ls" for i
  proof -
    have "q ! i < (ls @ [m]) ! i" using qb that by simp
    then show ?thesis using that ql by (simp add: nth_butlast nth_append)
  qed
  then have "butlast q \<in> set (all_points ls)"
    unfolding all_points_iff using ql by simp
  then have "butlast q \<in> set (all_points_first_inner ls)" by (simp only: fi)
  then have "butlast q @ [q ! length ls] \<in> set (concat (map ?blk [0..<?k]))"
    using assms(3) by auto
  then have "q \<in> set (concat (map ?blk [0..<?k]))" using qs by simp
  then show ?thesis using nb by blast
qed

text \<open>The scan for the end of a rect.\<close>

lemma first_beyond_Some:
  assumes "first_beyond e = Some i"
  shows "i < length e \<and> 0 < e ! i \<and> (\<forall>j < i. e ! j = 0)"
proof -
  from assms obtain k where k: "k < length [0..<length e]" "0 < e ! ([0..<length e] ! k)"
    "i = [0..<length e] ! k" "\<forall>j < k. \<not> 0 < e ! ([0..<length e] ! j)"
    unfolding first_beyond_def find_Some_iff by blast
  then have "k < length e" by simp
  then have "i = k" using k(3) by simp
  then show ?thesis using k by auto
qed

lemma first_beyond_None: "first_beyond e = None \<longleftrightarrow> (\<forall>j < length e. e ! j = 0)"
  by (auto simp add: first_beyond_def find_None_iff)

lemma sum_list_update_less:
  "i < length xs \<Longrightarrow> v < xs ! i \<Longrightarrow> sum_list (xs[i := v]) < sum_list (xs :: nat list)"
proof (induction xs arbitrary: i)
  case Nil
  then show ?case by simp
next
  case (Cons x xs)
  then show ?case by (cases i) auto
qed

lemma scan_once_None:
  assumes "find (scan_stops valid cur b) (visit_order fi len) = None"
  shows "scan_once fi valid cur b len = (len, False)"
    "\<forall>q \<in> set (all_points len). \<not> scan_stops valid cur b q"
proof -
  show "scan_once fi valid cur b len = (len, False)"
    unfolding scan_once_def assms by simp
  show "\<forall>q \<in> set (all_points len). \<not> scan_stops valid cur b q"
    using assms by (simp add: find_None_iff visit_order_set)
qed

lemma scan_once_Some:
  assumes "find (scan_stops valid cur b) (visit_order fi len) = Some e"
  shows "\<exists>i. first_beyond e = Some i \<and> i < length len \<and> 0 < e ! i \<and> e ! i < len ! i
           \<and> scan_once fi valid cur b len = (len[i := e ! i], i < length len - 1)"
proof -
  from assms have e: "e \<in> set (visit_order fi len)" "scan_stops valid cur b e"
    by (auto simp add: find_Some_iff)
  then have el: "length e = length len" "\<forall>i < length len. e ! i < len ! i"
    by (simp_all add: visit_order_set all_points_iff)
  from e(2) obtain i where i: "first_beyond e = Some i"
    by (auto simp add: scan_stops_def)
  from first_beyond_Some[OF this] el
  have "i < length len" "0 < e ! i" "e ! i < len ! i" by simp_all
  then show ?thesis using i assms by (simp add: scan_once_def)
qed

lemma scan_stops_not:
  assumes "\<not> scan_stops valid cur b q" "is_new_valid valid cur b" "length q = length b"
  shows "is_new_valid valid cur (add_ofs b q)"
proof (cases "first_beyond q")
  case None
  then have "add_ofs b q = b"
    using assms(3) by (intro add_ofs_zero) (simp_all add: first_beyond_None)
  then show ?thesis using assms(2) by simp
next
  case (Some i)
  then show ?thesis using assms(1) by (simp add: scan_stops_def)
qed

lemma scan_loop_correct:
  assumes "is_new_valid valid cur b" "length len = length b" "\<forall>j < length len. 1 \<le> len ! j"
  shows "\<exists>r. scan_loop True valid cur b len = Some r \<and> length r = length len
           \<and> (\<forall>j < length len. 1 \<le> r ! j \<and> r ! j \<le> len ! j)
           \<and> (\<forall>q \<in> set (all_points r). is_new_valid valid cur (add_ofs b q))"
  using assms(2,3)
proof (induction len rule: measure_induct_rule[of sum_list])
  case (less len)
  show ?case
  proof (cases "find (scan_stops valid cur b) (visit_order True len)")
    case None
    from scan_once_None[OF None]
    have s: "scan_once True valid cur b len = (len, False)"
      and n: "\<forall>q \<in> set (all_points len). \<not> scan_stops valid cur b q" by simp_all
    have "is_new_valid valid cur (add_ofs b q)" if "q \<in> set (all_points len)" for q
    proof -
      have "length q = length b" using that less.prems(1) by (simp add: all_points_iff)
      with n that show ?thesis using scan_stops_not[OF _ assms(1)] by blast
    qed
    moreover have "scan_loop True valid cur b len = Some len"
      by (subst scan_loop.simps) (simp add: s)
    ultimately show ?thesis using less.prems by auto
  next
    case (Some e)
    from scan_once_Some[OF Some] obtain i where
      i: "first_beyond e = Some i" "i < length len" "0 < e ! i" "e ! i < len ! i"
      and s: "scan_once True valid cur b len = (len[i := e ! i], i < length len - 1)"
      by blast
    let ?len' = "len[i := e ! i]"
    have l': "length ?len' = length b" using less.prems(1) by simp
    have p': "\<forall>j < length ?len'. 1 \<le> ?len' ! j"
      using less.prems(2) i(2,3) by (auto simp add: nth_list_update)
    have le': "\<forall>j < length len. ?len' ! j \<le> len ! j"
      using i(2,4) by (auto simp add: nth_list_update)
    show ?thesis
    proof (cases "i < length len - 1")
      case True
      have "sum_list ?len' < sum_list len" using i(2,4) by (rule sum_list_update_less)
      from less.IH[OF this l' p'] obtain r where
        r: "scan_loop True valid cur b ?len' = Some r" "length r = length ?len'"
        "\<forall>j < length ?len'. 1 \<le> r ! j \<and> r ! j \<le> ?len' ! j"
        "\<forall>q \<in> set (all_points r). is_new_valid valid cur (add_ofs b q)"
        by blast
      have "scan_loop True valid cur b len = Some r"
        using r(1) True by (subst scan_loop.simps) (simp add: s)
      moreover have "\<forall>j < length len. 1 \<le> r ! j \<and> r ! j \<le> len ! j"
        using r(3) le' by (auto intro: order_trans)
      ultimately show ?thesis using r(2,4) by auto
    next
      case False
      then have il: "i = length len - 1" using i(2) by simp
      have run: "scan_loop True valid cur b len = Some ?len'"
        using False by (subst scan_loop.simps) (simp add: s)
      have ne: "len \<noteq> []" using i(2) by auto
      then have sp: "len = butlast len @ [last len]" by simp
      have lb: "length (butlast len) = i" using il by simp
      have f: "find (scan_stops valid cur b)
                 (all_points_first_inner (butlast len @ [last len])) = Some e"
        using Some sp by (simp add: visit_order_def)
      have "is_new_valid valid cur (add_ofs b q)" if q: "q \<in> set (all_points ?len')" for q
      proof -
        have ql: "length q = length len" and qb: "\<forall>j < length len. q ! j < ?len' ! j"
          using q by (simp_all add: all_points_iff)
        have "q ! j < len ! j" if "j < length len" for j
          using qb le' that by (metis less_le_trans)
        then have "q \<in> set (all_points len)" using ql by (simp add: all_points_iff)
        then have m: "q \<in> set (all_points (butlast len @ [last len]))" using sp by simp
        have "q ! i < e ! i" using qb i(2) by (auto dest: spec[of _ i])
        then have "q ! length (butlast len) < e ! length (butlast len)" using lb by simp
        from first_inner_before[OF f m this]
        have "\<not> scan_stops valid cur b q" .
        then show ?thesis using scan_stops_not[OF _ assms(1)] ql less.prems(1) by simp
      qed
      then show ?thesis using run p' le' less.prems by auto
    qed
  qed
qed

text \<open>The rects of a slice.\<close>

lemma bb_within_iff:
  "bb_within sb se bb \<longleftrightarrow> (\<forall>j < length sb. sb ! j \<le> bb_begin bb ! j \<and> bb_end bb ! j \<le> se ! j)"
  by (auto simp add: bb_within_def list_all_iff)

lemma new_rect_ok:
  assumes ok: "rects_ok valid sb se cur" and l: "length sb = n" "length se = n" "length pt = n"
    and ins: "\<forall>j < n. sb ! j \<le> pt ! j \<and> pt ! j < se ! j"
    and nv: "is_new_valid valid cur pt"
  shows "\<exists>bb. new_rect True valid cur se pt = Some bb \<and> rects_ok valid sb se (cur @ [bb])
           \<and> pt \<in> bb_points bb"
proof -
  let ?len = "len_to se pt"
  have ll: "length ?len = length pt" using l by (simp add: len_to_length)
  have lp: "\<forall>j < length ?len. 1 \<le> ?len ! j"
    using ins l by (auto simp add: len_to_length len_to_nth)
  from scan_loop_correct[OF nv ll lp] obtain r where
    r: "scan_loop True valid cur pt ?len = Some r" "length r = length ?len"
    "\<forall>j < length ?len. 1 \<le> r ! j \<and> r ! j \<le> ?len ! j"
    "\<forall>q \<in> set (all_points r). is_new_valid valid cur (add_ofs pt q)"
    by blast
  let ?bb = "\<lparr>bb_begin = pt, bb_end = add_ofs pt r\<rparr>"
  have rl: "length r = n" using r(2) ll l by simp
  have rb: "1 \<le> r ! j" "int (r ! j) \<le> se ! j - pt ! j" if "j < n" for j
  proof -
    show "1 \<le> r ! j" using r(3) that ll l by simp
    have "r ! j \<le> nat (se ! j - pt ! j)"
      using r(3) that ll l by (simp add: len_to_nth)
    then show "int (r ! j) \<le> se ! j - pt ! j" using ins that by auto
  qed
  have run: "new_rect True valid cur se pt = Some ?bb"
    by (simp add: new_rect_def r(1))
  have rp: "0 < r ! j" if "j < n" for j using rb(1)[OF that] by simp
  have wf: "wf_bb (length sb) ?bb"
    unfolding wf_bb_iff using l rl rp by (simp add: add_ofs_length add_ofs_nth)
  have re: "pt ! j + int (r ! j) \<le> se ! j" if "j < n" for j using rb(2)[OF that] by simp
  have wi: "bb_within sb se ?bb"
    unfolding bb_within_iff using l rl re ins by (simp add: add_ofs_nth)
  have pts: "bb_points ?bb = add_ofs pt ` set (all_points r)"
    using rl l by (intro rect_points) simp
  have va: "\<forall>p \<in> bb_points ?bb. valid p"
    unfolding pts using r(4) by (auto simp add: is_new_valid_def)
  have dj: "bb_disjoint c ?bb" if "c \<in> set cur" for c
  proof -
    have "p \<notin> bb_points c" if "p \<in> bb_points ?bb" for p
    proof -
      from that r(4) have "is_new_valid valid cur p" unfolding pts by auto
      then have "\<not> is_in_bb c p" using \<open>c \<in> set cur\<close>
        by (auto simp add: is_new_valid_def list_ex_iff)
      then show ?thesis by (simp add: bb_points_def)
    qed
    then show ?thesis by (auto simp add: bb_disjoint_def)
  qed
  have "rects_ok valid sb se (cur @ [?bb])"
    using ok wf wi va dj by (auto simp add: rects_ok_def sorted_wrt_append)
  moreover have "pt \<in> bb_points ?bb"
  proof -
    have "replicate n 0 \<in> set (all_points r)"
      unfolding all_points_iff using rl rp by simp
    moreover have "add_ofs pt (replicate n 0) = pt"
      using l by (intro add_ofs_zero) simp_all
    ultimately show ?thesis unfolding pts by force
  qed
  ultimately show ?thesis using run by blast
qed

lemma find_rects_ok:
  assumes l: "length sb = n" "length se = n"
  shows "rects_ok valid sb se cur \<Longrightarrow> \<forall>ofs \<in> set rest. ofs \<in> set (all_points (len_to se sb))
     \<Longrightarrow> \<exists>L. find_rects True valid sb se rest cur = Some L \<and> rects_ok valid sb se L
           \<and> (\<Union>(bb_points ` set cur)) \<subseteq> (\<Union>(bb_points ` set L))
           \<and> (\<forall>ofs \<in> set rest. valid (add_ofs sb ofs)
                  \<longrightarrow> add_ofs sb ofs \<in> (\<Union>(bb_points ` set L)))"
proof (induction rest arbitrary: cur)
  case Nil
  then show ?case by simp
next
  case (Cons ofs rest)
  let ?pt = "add_ofs sb ofs"
  have o: "length ofs = n" "\<forall>j < n. ofs ! j < nat (se ! j - sb ! j)"
    using Cons.prems(2) l by (simp_all add: all_points_iff len_to_length len_to_nth)
  have pl: "length ?pt = n" using o(1) l by (simp add: add_ofs_length)
  have pin: "\<forall>j < n. sb ! j \<le> ?pt ! j \<and> ?pt ! j < se ! j"
  proof (intro allI impI)
    fix j assume j: "j < n"
    then have "int (ofs ! j) < se ! j - sb ! j" using o(2) by (metis zless_nat_eq_int_zless)
    then show "sb ! j \<le> ?pt ! j \<and> ?pt ! j < se ! j"
      using j l o(1) by (simp add: add_ofs_nth)
  qed
  have rest: "\<forall>ofs \<in> set rest. ofs \<in> set (all_points (len_to se sb))"
    using Cons.prems(2) by simp
  show ?case
  proof (cases "is_new_valid valid cur ?pt")
    case True
    from new_rect_ok[OF Cons.prems(1) l pl pin True] obtain bb where
      bb: "new_rect True valid cur se ?pt = Some bb" "rects_ok valid sb se (cur @ [bb])"
      "?pt \<in> bb_points bb" by blast
    from Cons.IH[OF bb(2) rest] obtain L where
      L: "find_rects True valid sb se rest (cur @ [bb]) = Some L" "rects_ok valid sb se L"
      "(\<Union>(bb_points ` set (cur @ [bb]))) \<subseteq> (\<Union>(bb_points ` set L))"
      "\<forall>ofs \<in> set rest. valid (add_ofs sb ofs) \<longrightarrow> add_ofs sb ofs \<in> (\<Union>(bb_points ` set L))"
      by blast
    have "find_rects True valid sb se (ofs # rest) cur = Some L"
      using True bb(1) L(1) by simp
    moreover have "(\<Union>(bb_points ` set cur)) \<subseteq> (\<Union>(bb_points ` set L))"
      using L(3) by auto
    moreover have "?pt \<in> (\<Union>(bb_points ` set L))" using L(3) bb(3) by auto
    ultimately show ?thesis using L(2,4) by auto
  next
    case False
    from Cons.IH[OF Cons.prems(1) rest] obtain L where
      L: "find_rects True valid sb se rest cur = Some L" "rects_ok valid sb se L"
      "(\<Union>(bb_points ` set cur)) \<subseteq> (\<Union>(bb_points ` set L))"
      "\<forall>ofs \<in> set rest. valid (add_ofs sb ofs) \<longrightarrow> add_ofs sb ofs \<in> (\<Union>(bb_points ` set L))"
      by blast
    have run: "find_rects True valid sb se (ofs # rest) cur = Some L"
      using False L(1) by simp
    have "?pt \<in> (\<Union>(bb_points ` set L))" if "valid ?pt"
    proof -
      from that False obtain c where c: "c \<in> set cur" "is_in_bb c ?pt"
        by (auto simp add: is_new_valid_def list_ex_iff)
      then have "wf_bb (length sb) c" using Cons.prems(1) by (simp add: rects_ok_def)
      then have "length (bb_begin c) = n" using l by (simp add: wf_bb_iff)
      then have "?pt \<in> bb_points c" using c(2) pl by (simp add: bb_points_def)
      then show ?thesis using c(1) L(3) by auto
    qed
    then show ?thesis using run L(2,3,4) by auto
  qed
qed

text \<open>The slices of the threads.\<close>

lemma find_slice_ok:
  assumes wf: "wf_bb n ext" and n: "0 < n" and s: "0 \<le> s" and lp: "0 < len_per_thr"
  shows "\<exists>L. find_slice True valid ext len_per_thr s = Some L
           \<and> (\<forall>bb \<in> set L. wf_bb n bb) \<and> sorted_wrt bb_disjoint L
           \<and> (\<Union>(bb_points ` set L))
               = {pt \<in> bb_points ext. bb_begin ext ! 0 + s * len_per_thr \<le> pt ! 0
                    \<and> pt ! 0 < bb_begin ext ! 0 + s * len_per_thr + len_per_thr \<and> valid pt}"
proof -
  let ?B = "bb_begin ext" and ?E = "bb_end ext"
  let ?lo = "?B ! 0 + s * len_per_thr"
  let ?sb = "?B[0 := ?lo]"
  let ?se = "?E[0 := min (?E ! 0) (?sb ! 0 + len_per_thr)]"
  have l: "length ?B = n" "length ?E = n" and lt: "\<forall>j < n. ?B ! j < ?E ! j"
    using wf by (simp_all add: wf_bb_iff)
  have ls: "length ?sb = n" "length ?se = n" using l by simp_all
  have sb0: "?sb ! 0 = ?lo" using l n by simp
  have se0: "?se ! 0 = min (?E ! 0) (?lo + len_per_thr)" using l n by simp
  have sbj: "?sb ! j = ?B ! j" and sej: "?se ! j = ?E ! j" if "j \<noteq> 0" for j
    using that by simp_all
  have lo: "?B ! 0 \<le> ?lo" using s lp by simp
  have box: "(\<forall>j < n. ?sb ! j \<le> p ! j \<and> p ! j < ?se ! j)
               \<longleftrightarrow> (\<forall>j < n. ?B ! j \<le> p ! j \<and> p ! j < ?E ! j)
                    \<and> ?lo \<le> p ! 0 \<and> p ! 0 < ?lo + len_per_thr" for p
  proof
    assume a: "\<forall>j < n. ?sb ! j \<le> p ! j \<and> p ! j < ?se ! j"
    have "?B ! j \<le> p ! j \<and> p ! j < ?E ! j" if "j < n" for j
    proof (cases "j = 0")
      case True
      then show ?thesis using a that sb0 se0 lo by (auto dest!: spec[of _ 0])
    next
      case False
      then show ?thesis using a that sbj sej by (auto dest!: spec[of _ j])
    qed
    moreover have "?lo \<le> p ! 0 \<and> p ! 0 < ?lo + len_per_thr"
      using a n sb0 se0 by (auto dest!: spec[of _ 0])
    ultimately show "(\<forall>j < n. ?B ! j \<le> p ! j \<and> p ! j < ?E ! j)
                    \<and> ?lo \<le> p ! 0 \<and> p ! 0 < ?lo + len_per_thr" by blast
  next
    assume a: "(\<forall>j < n. ?B ! j \<le> p ! j \<and> p ! j < ?E ! j)
                    \<and> ?lo \<le> p ! 0 \<and> p ! 0 < ?lo + len_per_thr"
    show "\<forall>j < n. ?sb ! j \<le> p ! j \<and> p ! j < ?se ! j"
    proof (intro allI impI)
      fix j assume j: "j < n"
      show "?sb ! j \<le> p ! j \<and> p ! j < ?se ! j"
      proof (cases "j = 0")
        case True
        then show ?thesis using a j sb0 se0 by (auto dest!: spec[of _ 0])
      next
        case False
        then show ?thesis using a j sbj[OF False] sej[OF False] by (auto dest!: spec[of _ j])
      qed
    qed
  qed
  let ?S = "{pt \<in> bb_points ext. ?lo \<le> pt ! 0 \<and> pt ! 0 < ?lo + len_per_thr \<and> valid pt}"
  have S: "pt \<in> ?S \<longleftrightarrow> length pt = n \<and> (\<forall>j < n. ?sb ! j \<le> pt ! j \<and> pt ! j < ?se ! j) \<and> valid pt"
    for pt
    unfolding box using l by (auto simp add: bb_points_def is_in_bb_iff)
  show ?thesis
  proof (cases "?se ! 0 \<le> ?sb ! 0")
    case True
    then have run: "find_slice True valid ext len_per_thr s = Some []"
      by (simp add: find_slice_def Let_def)
    have "?S = {}"
    proof -
      have "False" if "pt \<in> ?S" for pt
      proof -
        from that have "?sb ! 0 \<le> pt ! 0 \<and> pt ! 0 < ?se ! 0"
          unfolding S using n by blast
        then show False using True by linarith
      qed
      then show ?thesis by blast
    qed
    then show ?thesis using run by simp
  next
    case False
    have ok0: "rects_ok valid ?sb ?se []" by (simp add: rects_ok_def)
    have all: "\<forall>ofs \<in> set (visit_order True (len_to ?se ?sb)).
                 ofs \<in> set (all_points (len_to ?se ?sb))"
      by (simp add: visit_order_set)
    from find_rects_ok[OF ls ok0 all] obtain L where
      L: "find_rects True valid ?sb ?se (visit_order True (len_to ?se ?sb)) [] = Some L"
      "rects_ok valid ?sb ?se L"
      "\<forall>ofs \<in> set (visit_order True (len_to ?se ?sb)). valid (add_ofs ?sb ofs)
         \<longrightarrow> add_ofs ?sb ofs \<in> (\<Union>(bb_points ` set L))"
      by blast
    have run: "find_slice True valid ext len_per_thr s = Some L"
      using False L(1) by (simp add: find_slice_def Let_def)
    have wfL: "\<forall>bb \<in> set L. wf_bb n bb" and dj: "sorted_wrt bb_disjoint L"
      using L(2) ls by (simp_all add: rects_ok_def)
    have "(\<Union>(bb_points ` set L)) = ?S"
    proof (intro set_eqI iffI)
      fix pt assume "pt \<in> (\<Union>(bb_points ` set L))"
      then obtain bb where bb: "bb \<in> set L" "pt \<in> bb_points bb" by blast
      then have w: "wf_bb n bb" "bb_within ?sb ?se bb" "valid pt"
        using L(2) ls by (auto simp add: rects_ok_def)
      have pl: "length pt = n"
        and pb: "\<forall>j < n. bb_begin bb ! j \<le> pt ! j \<and> pt ! j < bb_end bb ! j"
        using bb(2) w(1) by (simp_all add: bb_points_def is_in_bb_iff wf_bb_iff)
      have "?sb ! j \<le> pt ! j \<and> pt ! j < ?se ! j" if "j < n" for j
      proof -
        have "?sb ! j \<le> bb_begin bb ! j \<and> bb_end bb ! j \<le> ?se ! j"
          using w(2) that ls unfolding bb_within_iff by simp
        then show ?thesis using pb that by force
      qed
      then show "pt \<in> ?S" unfolding S using pl w(3) by blast
    next
      fix pt assume "pt \<in> ?S"
      then have pl: "length pt = n" and pb: "\<forall>j < n. ?sb ! j \<le> pt ! j \<and> pt ! j < ?se ! j"
        and v: "valid pt" unfolding S by blast+
      let ?ofs = "len_to pt ?sb"
      have e: "add_ofs ?sb ?ofs = pt"
        using pl pb ls by (intro add_ofs_len_to) simp_all
      have "?ofs \<in> set (all_points (len_to ?se ?sb))"
        unfolding all_points_iff
      proof (intro conjI allI impI)
        show "length ?ofs = length (len_to ?se ?sb)" using pl ls by (simp add: len_to_length)
        fix j assume "j < length (len_to ?se ?sb)"
        then have j: "j < n" using ls by (simp add: len_to_length)
        then have "?sb ! j \<le> pt ! j \<and> pt ! j < ?se ! j" using pb by blast
        then have "nat (pt ! j - ?sb ! j) < nat (?se ! j - ?sb ! j)" by linarith
        then show "?ofs ! j < len_to ?se ?sb ! j"
          using j pl ls by (simp add: len_to_nth)
      qed
      then have "?ofs \<in> set (visit_order True (len_to ?se ?sb))" by (simp add: visit_order_set)
      with L(3) v e show "pt \<in> (\<Union>(bb_points ` set L))" by fastforce
    qed
    then show ?thesis using run wfL dj by blast
  qed
qed

text \<open>The merge of the rects of the slices.\<close>

lemma bb_disjoint_sym: "bb_disjoint a b \<Longrightarrow> bb_disjoint b a"
  by (auto simp add: bb_disjoint_def)

lemma wf_bb_size:
  assumes "wf_bb n bb"
  shows "0 < bb_size bb"
proof -
  have "list_all (\<lambda>x. 0 < x) (bb_len bb)"
    unfolding list_all_length bb_len_def using assms by (simp add: wf_bb_iff)
  then show ?thesis by (simp add: bb_size_def tuple_product_def prod_list_pos)
qed

lemma can_merge_iff:
  "can_merge bb bbn \<longleftrightarrow>
     (\<forall>i < length (bb_begin bb).
        if i = 0 then bb_end bb ! i = bb_begin bbn ! i
        else bb_begin bb ! i = bb_begin bbn ! i \<and> bb_end bb ! i = bb_end bbn ! i)"
  by (auto simp add: can_merge_def list_all_iff)

lemma merged_bb:
  assumes "can_merge bb bbn" "wf_bb n bb" "wf_bb n bbn" "0 < n"
  shows "wf_bb n (bb\<lparr>bb_end := (bb_end bb)[0 := bb_end bbn ! 0]\<rparr>)"
    "bb_points (bb\<lparr>bb_end := (bb_end bb)[0 := bb_end bbn ! 0]\<rparr>) = bb_points bb \<union> bb_points bbn"
proof -
  let ?m = "bb\<lparr>bb_end := (bb_end bb)[0 := bb_end bbn ! 0]\<rparr>"
  have l: "length (bb_begin bb) = n" "length (bb_end bb) = n"
    "length (bb_begin bbn) = n" "length (bb_end bbn) = n"
    and lt: "\<forall>j < n. bb_begin bb ! j < bb_end bb ! j" "\<forall>j < n. bb_begin bbn ! j < bb_end bbn ! j"
    using assms(2,3) by (simp_all add: wf_bb_iff)
  have c0: "bb_end bb ! 0 = bb_begin bbn ! 0"
    using assms(1,4) l(1) unfolding can_merge_iff by (auto dest!: spec[of _ 0])
  have cj: "bb_begin bb ! j = bb_begin bbn ! j" "bb_end bb ! j = bb_end bbn ! j"
    if "j < n" "j \<noteq> 0" for j
    using assms(1) l(1) that unfolding can_merge_iff by (auto dest!: spec[of _ j])
  have o0: "bb_begin bb ! 0 < bb_end bb ! 0" "bb_begin bbn ! 0 < bb_end bbn ! 0"
    using lt assms(4) by blast+
  have m0: "bb_end ?m ! 0 = bb_end bbn ! 0" using l assms(4) by simp
  have mj: "bb_end ?m ! j = bb_end bb ! j" if "j \<noteq> 0" for j using that by simp
  have mb: "bb_begin ?m = bb_begin bb" by simp
  show "wf_bb n ?m"
    unfolding wf_bb_iff
  proof (intro conjI allI impI)
    show "length (bb_begin ?m) = n" "length (bb_end ?m) = n" using l by simp_all
    fix j assume j: "j < n"
    show "bb_begin ?m ! j < bb_end ?m ! j"
    proof (cases "j = 0")
      case True
      then show ?thesis using m0 o0 c0 by simp
    next
      case False
      then show ?thesis using mj[OF False] lt(1) j by simp
    qed
  qed
  have in_m: "is_in_bb ?m p \<longleftrightarrow> is_in_bb bb p \<or> is_in_bb bbn p" for p
  proof -
    have a: "is_in_bb ?m p \<longleftrightarrow> (bb_begin bb ! 0 \<le> p ! 0 \<and> p ! 0 < bb_end bbn ! 0)
               \<and> (\<forall>j < n. j \<noteq> 0 \<longrightarrow> bb_begin bb ! j \<le> p ! j \<and> p ! j < bb_end bb ! j)"
      unfolding is_in_bb_iff mb l(1)
    proof
      assume h: "\<forall>j < n. bb_begin bb ! j \<le> p ! j \<and> p ! j < bb_end ?m ! j"
      then have "bb_begin bb ! 0 \<le> p ! 0 \<and> p ! 0 < bb_end bbn ! 0"
        using assms(4) m0 by (auto dest!: spec[of _ 0])
      moreover have "bb_begin bb ! j \<le> p ! j \<and> p ! j < bb_end bb ! j" if "j < n" "j \<noteq> 0" for j
        using h that mj[OF that(2)] by (auto dest!: spec[of _ j])
      ultimately show "(bb_begin bb ! 0 \<le> p ! 0 \<and> p ! 0 < bb_end bbn ! 0)
               \<and> (\<forall>j < n. j \<noteq> 0 \<longrightarrow> bb_begin bb ! j \<le> p ! j \<and> p ! j < bb_end bb ! j)"
        by blast
    next
      assume h: "(bb_begin bb ! 0 \<le> p ! 0 \<and> p ! 0 < bb_end bbn ! 0)
               \<and> (\<forall>j < n. j \<noteq> 0 \<longrightarrow> bb_begin bb ! j \<le> p ! j \<and> p ! j < bb_end bb ! j)"
      show "\<forall>j < n. bb_begin bb ! j \<le> p ! j \<and> p ! j < bb_end ?m ! j"
      proof (intro allI impI)
        fix j assume j: "j < n"
        show "bb_begin bb ! j \<le> p ! j \<and> p ! j < bb_end ?m ! j"
        proof (cases "j = 0")
          case True
          then show ?thesis using h m0 by simp
        next
          case False
          then show ?thesis using h j mj[OF False] by simp
        qed
      qed
    qed
    have b: "is_in_bb bb p \<longleftrightarrow> (bb_begin bb ! 0 \<le> p ! 0 \<and> p ! 0 < bb_end bb ! 0)
               \<and> (\<forall>j < n. j \<noteq> 0 \<longrightarrow> bb_begin bb ! j \<le> p ! j \<and> p ! j < bb_end bb ! j)"
      unfolding is_in_bb_iff l(1) using assms(4) by (metis)
    have c: "is_in_bb bbn p \<longleftrightarrow> (bb_end bb ! 0 \<le> p ! 0 \<and> p ! 0 < bb_end bbn ! 0)
               \<and> (\<forall>j < n. j \<noteq> 0 \<longrightarrow> bb_begin bb ! j \<le> p ! j \<and> p ! j < bb_end bb ! j)"
    proof -
      have "is_in_bb bbn p \<longleftrightarrow> (bb_begin bbn ! 0 \<le> p ! 0 \<and> p ! 0 < bb_end bbn ! 0)
               \<and> (\<forall>j < n. j \<noteq> 0 \<longrightarrow> bb_begin bbn ! j \<le> p ! j \<and> p ! j < bb_end bbn ! j)"
        unfolding is_in_bb_iff l(3) using assms(4) by (metis)
      then show ?thesis using c0 cj by auto
    qed
    show ?thesis unfolding a b c using o0 c0 by auto
  qed
  show "bb_points ?m = bb_points bb \<union> bb_points bbn"
    using l in_m by (auto simp add: bb_points_def)
qed

lemma merge_into_Some:
  "merge_into M bbn = Some M' \<Longrightarrow>
     \<exists>pre a post. M = pre @ a # post \<and> can_merge a bbn
        \<and> M' = pre @ a\<lparr>bb_end := (bb_end a)[0 := bb_end bbn ! 0]\<rparr> # post"
proof (induction M arbitrary: M')
  case Nil
  then show ?case by simp
next
  case (Cons bb M)
  show ?case
  proof (cases "can_merge bb bbn")
    case True
    then have "M' = bb\<lparr>bb_end := (bb_end bb)[0 := bb_end bbn ! 0]\<rparr> # M"
      using Cons.prems by simp
    then show ?thesis using True by (intro exI[of _ "[]"]) auto
  next
    case False
    then obtain M2 where m: "merge_into M bbn = Some M2" "M' = bb # M2"
      using Cons.prems by auto
    from Cons.IH[OF m(1)] obtain pre a post where
      "M = pre @ a # post" "can_merge a bbn"
      "M2 = pre @ a\<lparr>bb_end := (bb_end a)[0 := bb_end bbn ! 0]\<rparr> # post" by blast
    then show ?thesis using m(2) by (intro exI[of _ "bb # pre"]) auto
  qed
qed

lemma add_bb_step:
  assumes wf: "\<forall>bb \<in> set M. wf_bb n bb" "wf_bb n bbn" and n: "0 < n"
    and dj: "sorted_wrt bb_disjoint M" "\<forall>bb \<in> set M. bb_disjoint bb bbn"
  shows "(\<forall>bb \<in> set (add_bb M bbn). wf_bb n bb) \<and> sorted_wrt bb_disjoint (add_bb M bbn)
           \<and> (\<Union>(bb_points ` set (add_bb M bbn))) = (\<Union>(bb_points ` set M)) \<union> bb_points bbn"
proof (cases "merge_into M bbn")
  case None
  then have a: "add_bb M bbn = M @ [bbn]"
    using wf_bb_size[OF wf(2)] by (simp add: add_bb_def)
  show ?thesis unfolding a using wf dj by (auto simp add: sorted_wrt_append)
next
  case (Some M')
  then have a: "add_bb M bbn = M'"
    using wf_bb_size[OF wf(2)] by (simp add: add_bb_def)
  from merge_into_Some[OF Some] obtain pre b post where
    m: "M = pre @ b # post" "can_merge b bbn"
    "M' = pre @ b\<lparr>bb_end := (bb_end b)[0 := bb_end bbn ! 0]\<rparr> # post" by blast
  let ?m = "b\<lparr>bb_end := (bb_end b)[0 := bb_end bbn ! 0]\<rparr>"
  have wb: "wf_bb n b" using wf(1) m(1) by simp
  from merged_bb[OF m(2) wb wf(2) n]
  have wm: "wf_bb n ?m" and pm: "bb_points ?m = bb_points b \<union> bb_points bbn" by simp_all
  have d1: "bb_disjoint x ?m" if "bb_disjoint x b" "bb_disjoint x bbn" for x
    using that pm by (auto simp add: bb_disjoint_def)
  have d2: "bb_disjoint ?m y" if "bb_disjoint b y" "bb_disjoint y bbn" for y
    using that pm by (auto simp add: bb_disjoint_def)
  have s: "sorted_wrt bb_disjoint (pre @ ?m # post)"
    using dj unfolding m(1) by (auto simp add: sorted_wrt_append intro: d1 d2)
  have u: "(\<Union>(bb_points ` set (pre @ ?m # post)))
             = (\<Union>(bb_points ` set (pre @ b # post))) \<union> bb_points bbn"
    using pm by auto
  have w: "\<forall>bb \<in> set (pre @ ?m # post). wf_bb n bb"
    using wf(1) wm unfolding m(1) by auto
  show ?thesis unfolding a m(3) using s u w unfolding m(1) by blast
qed

lemma add_bb_fold:
  assumes n: "0 < n"
  shows "(\<forall>bb \<in> set M. wf_bb n bb) \<Longrightarrow> (\<forall>bb \<in> set G. wf_bb n bb)
     \<Longrightarrow> sorted_wrt bb_disjoint M \<Longrightarrow> sorted_wrt bb_disjoint G
     \<Longrightarrow> (\<Union>(bb_points ` set M)) \<inter> (\<Union>(bb_points ` set G)) = {}
     \<Longrightarrow> (\<forall>bb \<in> set (foldl add_bb M G). wf_bb n bb)
         \<and> sorted_wrt bb_disjoint (foldl add_bb M G)
         \<and> (\<Union>(bb_points ` set (foldl add_bb M G)))
             = (\<Union>(bb_points ` set M)) \<union> (\<Union>(bb_points ` set G))"
proof (induction G arbitrary: M)
  case Nil
  then show ?case by simp
next
  case (Cons bbn G)
  have wn: "wf_bb n bbn" using Cons.prems(2) by simp
  have dn: "\<forall>bb \<in> set M. bb_disjoint bb bbn"
    using Cons.prems(5) by (auto simp add: bb_disjoint_def)
  from add_bb_step[OF Cons.prems(1) wn n Cons.prems(3) dn]
  have st: "\<forall>bb \<in> set (add_bb M bbn). wf_bb n bb" "sorted_wrt bb_disjoint (add_bb M bbn)"
    "(\<Union>(bb_points ` set (add_bb M bbn))) = (\<Union>(bb_points ` set M)) \<union> bb_points bbn"
    by blast+
  have g: "\<forall>bb \<in> set G. wf_bb n bb" "sorted_wrt bb_disjoint G"
    using Cons.prems(2,4) by simp_all
  have "bb_points bbn \<inter> (\<Union>(bb_points ` set G)) = {}"
    using Cons.prems(4) by (auto simp add: bb_disjoint_def)
  then have d: "(\<Union>(bb_points ` set (add_bb M bbn))) \<inter> (\<Union>(bb_points ` set G)) = {}"
    unfolding st(3) using Cons.prems(5) by auto
  from Cons.IH[OF st(1) g(1) st(2) g(2) d]
  show ?case unfolding st(3) by auto
qed

text \<open>The rects of all the slices, and the list of the bundle.\<close>

lemma those_map_Some:
  "\<forall>x \<in> set xs. f x \<noteq> None \<Longrightarrow> those (map f xs) = Some (map (\<lambda>x. the (f x)) xs)"
  by (induction xs) auto

lemma sorted_wrt_concat_map:
  "\<forall>x \<in> set xs. sorted_wrt R (g x)
     \<Longrightarrow> sorted_wrt (\<lambda>x y. \<forall>a \<in> set (g x). \<forall>b \<in> set (g y). R a b) xs
     \<Longrightarrow> sorted_wrt R (concat (map g xs))"
  by (induction xs) (auto simp add: sorted_wrt_append)

lemma sorted_wrt_upto_rel:
  assumes "\<And>s s'. a \<le> s \<Longrightarrow> s < s' \<Longrightarrow> R s s'"
  shows "sorted_wrt R [a..b]"
  unfolding sorted_wrt_iff_nth_less
proof (intro allI impI)
  fix i j assume ij: "i < j" "j < length [a..b]"
  then have "a + int j \<le> b" "a + int i \<le> b" by simp_all
  then have "[a..b] ! i = a + int i" "[a..b] ! j = a + int j" by simp_all
  then show "R ([a..b] ! i) ([a..b] ! j)" using assms[of "a + int i" "a + int j"] ij(1) by simp
qed

lemma len_per_thr_covers:
  assumes "0 < outer_len" "0 < nthreads"
  shows "0 < CEIL_DIV outer_len nthreads" "outer_len \<le> CEIL_DIV outer_len nthreads * nthreads"
proof -
  show c: "outer_len \<le> CEIL_DIV outer_len nthreads * nthreads"
    using ROUND_UP_least_multiple(2)[of outer_len nthreads] assms by (simp add: ROUND_UP_def)
  show "0 < CEIL_DIV outer_len nthreads"
  proof (rule ccontr)
    assume "\<not> 0 < CEIL_DIV outer_len nthreads"
    then have "CEIL_DIV outer_len nthreads * nthreads \<le> 0"
      using assms(2) by (simp add: mult_le_0_iff)
    then show False using c assms(1) by linarith
  qed
qed

lemma slices_ok:
  assumes wf: "wf_bb n ext" and n: "0 < n" and t: "0 < nthreads"
  defines "lp \<equiv> CEIL_DIV (bb_len ext ! 0) nthreads"
  shows "\<exists>Ls. those (map (find_slice True valid ext lp) [0..nthreads - 1]) = Some Ls
           \<and> (\<forall>bb \<in> set (concat Ls). wf_bb n bb) \<and> sorted_wrt bb_disjoint (concat Ls)
           \<and> (\<Union>(bb_points ` set (concat Ls))) = {pt \<in> bb_points ext. valid pt}"
proof -
  let ?B0 = "bb_begin ext ! 0" and ?E0 = "bb_end ext ! 0"
  let ?f = "find_slice True valid ext lp"
  let ?g = "\<lambda>s. the (?f s)"
  let ?S = "\<lambda>s. {pt \<in> bb_points ext. ?B0 + s * lp \<le> pt ! 0 \<and> pt ! 0 < ?B0 + s * lp + lp
                    \<and> valid pt}"
  have l: "length (bb_begin ext) = n" "length (bb_end ext) = n"
    and lt: "\<forall>j < n. bb_begin ext ! j < bb_end ext ! j"
    using wf by (simp_all add: wf_bb_iff)
  have ol: "bb_len ext ! 0 = ?E0 - ?B0" using l n by (simp add: bb_len_def)
  have op: "0 < ?E0 - ?B0" using lt n by (auto dest!: spec[of _ 0])
  from len_per_thr_covers[of "?E0 - ?B0" nthreads] op t
  have lp: "0 < lp" and cov: "?E0 - ?B0 \<le> lp * nthreads"
    unfolding lp_def ol by simp_all
  have sl: "?f s = Some (?g s) \<and> (\<forall>bb \<in> set (?g s). wf_bb n bb)
              \<and> sorted_wrt bb_disjoint (?g s) \<and> (\<Union>(bb_points ` set (?g s))) = ?S s"
    if "0 \<le> s" for s
    using find_slice_ok[OF wf n that lp, of valid] by auto
  have sl2: "\<forall>bb \<in> set (?g s). wf_bb n bb" and sl3: "sorted_wrt bb_disjoint (?g s)"
    and sl4: "(\<Union>(bb_points ` set (?g s))) = ?S s" if "0 \<le> s" for s
    using sl[OF that] by (rule conjunct1[OF conjunct2], rule conjunct1[OF conjunct2[OF conjunct2]],
        rule conjunct2[OF conjunct2[OF conjunct2]])
  have nn: "\<forall>s \<in> set [0..nthreads - 1]. 0 \<le> s" by simp
  have "\<forall>s \<in> set [0..nthreads - 1]. ?f s \<noteq> None"
  proof
    fix s assume "s \<in> set [0..nthreads - 1]"
    then have "0 \<le> s" by simp
    from find_slice_ok[OF wf n this lp, of valid] obtain L where "?f s = Some L" by blast
    then show "?f s \<noteq> None" by simp
  qed
  from those_map_Some[OF this]
  have run: "those (map ?f [0..nthreads - 1]) = Some (map ?g [0..nthreads - 1])" .
  let ?G = "concat (map ?g [0..nthreads - 1])"
  have w: "\<forall>bb \<in> set ?G. wf_bb n bb" using sl2 by auto
  have across: "bb_disjoint a b" if "0 \<le> s" "s < s'" "a \<in> set (?g s)" "b \<in> set (?g s')"
    for s s' a b
  proof -
    have s': "0 \<le> s'" using that(1,2) by simp
    have "bb_points a \<subseteq> (\<Union>(bb_points ` set (?g s)))" using that(3) by blast
    then have "bb_points a \<subseteq> ?S s" by (simp only: sl4[OF that(1)])
    moreover have "bb_points b \<subseteq> (\<Union>(bb_points ` set (?g s')))" using that(4) by blast
    then have "bb_points b \<subseteq> ?S s'" by (simp only: sl4[OF s'])
    moreover have "?S s \<inter> ?S s' = {}"
    proof -
      have "s * lp + lp \<le> s' * lp"
      proof -
        have "s + 1 \<le> s'" using that(2) by simp
        then have "(s + 1) * lp \<le> s' * lp" using lp by (intro mult_right_mono) simp_all
        then show ?thesis by (simp add: algebra_simps)
      qed
      then show ?thesis by auto
    qed
    ultimately show ?thesis unfolding bb_disjoint_def by blast
  qed
  have "sorted_wrt (\<lambda>s s'. \<forall>a \<in> set (?g s). \<forall>b \<in> set (?g s'). bb_disjoint a b)
               [0..nthreads - 1]"
  proof (rule sorted_wrt_upto_rel)
    fix s s' :: int assume "0 \<le> s" "s < s'"
    then show "\<forall>a \<in> set (?g s). \<forall>b \<in> set (?g s'). bb_disjoint a b"
      using across[of s s'] by blast
  qed
  moreover have "\<forall>s \<in> set [0..nthreads - 1]. sorted_wrt bb_disjoint (?g s)"
    using sl3 by simp
  ultimately have d: "sorted_wrt bb_disjoint ?G"
    by (intro sorted_wrt_concat_map) simp_all
  have u: "(\<Union>(bb_points ` set ?G)) = {pt \<in> bb_points ext. valid pt}"
  proof (intro set_eqI iffI)
    fix pt assume "pt \<in> (\<Union>(bb_points ` set ?G))"
    then obtain s bb where "s \<in> set [0..nthreads - 1]" "bb \<in> set (?g s)" "pt \<in> bb_points bb"
      by auto
    then have "0 \<le> s" "pt \<in> (\<Union>(bb_points ` set (?g s)))" by auto
    then have "pt \<in> ?S s" by (simp only: sl4)
    then show "pt \<in> {pt \<in> bb_points ext. valid pt}" by simp
  next
    fix pt assume "pt \<in> {pt \<in> bb_points ext. valid pt}"
    then have p: "pt \<in> bb_points ext" "valid pt" by simp_all
    then have p0: "?B0 \<le> pt ! 0" "pt ! 0 < ?E0"
      using n l by (auto simp add: bb_points_def is_in_bb_iff dest!: spec[of _ 0])
    let ?s = "(pt ! 0 - ?B0) div lp"
    have s0: "0 \<le> ?s" using p0 lp by (simp add: pos_imp_zdiv_nonneg_iff)
    have lo: "?s * lp \<le> pt ! 0 - ?B0"
    proof -
      have "pt ! 0 - ?B0 = ?s * lp + (pt ! 0 - ?B0) mod lp" by simp
      moreover have "0 \<le> (pt ! 0 - ?B0) mod lp" using lp by simp
      ultimately show ?thesis by linarith
    qed
    have hi: "pt ! 0 - ?B0 < ?s * lp + lp"
    proof -
      have "pt ! 0 - ?B0 = ?s * lp + (pt ! 0 - ?B0) mod lp" by simp
      moreover have "(pt ! 0 - ?B0) mod lp < lp" using lp by simp
      ultimately show ?thesis by linarith
    qed
    have "?s * lp < nthreads * lp" using lo p0 cov by (simp add: mult.commute)
    then have st: "?s < nthreads" using lp by (simp add: mult_less_cancel_right)
    have "pt \<in> ?S ?s" using p lo hi by simp
    then have "pt \<in> (\<Union>(bb_points ` set (?g ?s)))" by (simp only: sl4[OF s0])
    moreover have "?s \<in> set [0..nthreads - 1]" using s0 st by simp
    ultimately show "pt \<in> (\<Union>(bb_points ` set ?G))" by auto
  qed
  show ?thesis using run w d u by blast
qed

lemma find_bounding_box_ok:
  assumes l: "length (bb_begin ext) = n" "length (bb_end ext) = n"
    and le: "\<forall>j < n. bb_begin ext ! j \<le> bb_end ext ! j"
    and n: "0 < n" and t: "0 < nthreads"
  shows "\<exists>L. find_bounding_box True valid True nthreads ext = Some L
           \<and> (\<forall>bb \<in> set L. wf_bb n bb) \<and> sorted_wrt bb_disjoint L
           \<and> (\<Union>(bb_points ` set L)) = {pt \<in> bb_points ext. valid pt}"
proof (cases "bb_size ext = 0")
  case True
  then have "0 \<in> set (bb_len ext)"
    by (simp add: bb_size_def tuple_product_def prod_list_zero_iff)
  then obtain j where j: "j < n" "bb_end ext ! j - bb_begin ext ! j = 0"
    using l by (auto simp add: bb_len_def in_set_conv_nth)
  have "bb_points ext = {}"
  proof -
    have False if "pt \<in> bb_points ext" for pt
    proof -
      from that have "bb_begin ext ! j \<le> pt ! j \<and> pt ! j < bb_end ext ! j"
        using j(1) l by (simp add: bb_points_def is_in_bb_iff)
      then show False using j(2) by linarith
    qed
    then show ?thesis by blast
  qed
  then show ?thesis using True by (simp add: find_bounding_box_def)
next
  case False
  have "bb_begin ext ! j < bb_end ext ! j" if "j < n" for j
  proof (rule ccontr)
    assume "\<not> bb_begin ext ! j < bb_end ext ! j"
    then have "bb_end ext ! j - bb_begin ext ! j = 0" using le that by auto
    then have "bb_len ext ! j = 0" using l that by (simp add: bb_len_def)
    moreover have "j < length (bb_len ext)" using l that by (simp add: bb_len_def)
    ultimately have "0 \<in> set (bb_len ext)" by (metis nth_mem)
    then show False using False by (simp add: bb_size_def tuple_product_def prod_list_zero_iff)
  qed
  then have wf: "wf_bb n ext" using l by (simp add: wf_bb_iff)
  from slices_ok[OF wf n t, of valid] obtain Ls where
    Ls: "those (map (find_slice True valid ext (CEIL_DIV (bb_len ext ! 0) nthreads))
                  [0..nthreads - 1]) = Some Ls"
    "\<forall>bb \<in> set (concat Ls). wf_bb n bb" "sorted_wrt bb_disjoint (concat Ls)"
    "(\<Union>(bb_points ` set (concat Ls))) = {pt \<in> bb_points ext. valid pt}"
    by blast
  have run: "find_bounding_box True valid True nthreads ext = Some (foldl add_bb [] (concat Ls))"
    using False Ls(1) by (simp add: find_bounding_box_def Let_def)
  from add_bb_fold[OF n, of "[]" "concat Ls"] Ls(2,3)
  have "(\<forall>bb \<in> set (foldl add_bb [] (concat Ls)). wf_bb n bb)
         \<and> sorted_wrt bb_disjoint (foldl add_bb [] (concat Ls))
         \<and> (\<Union>(bb_points ` set (foldl add_bb [] (concat Ls))))
             = (\<Union>(bb_points ` set (concat Ls)))"
    by simp
  then show ?thesis using run Ls(4) by simp
qed

text \<open>
  C1. For a bundle with a condition, \<^verbatim>\<open>find_bounding_box\<close> ends, and the boxes of its list
  \<^verbatim>\<open>_bb_list\<close> hold exactly the points of the extended box of the rank that are in the valid
  domain of the bundle, and no two of them have a common point. The points of a box are
  visited in the order of the code, with the first dim innermost. The extended box has \<open>n\<close>
  domain dims, at least one, with its begin at or before its end in each, and there is at
  least one thread; the points are the tuples over the \<open>n\<close> domain dims.
\<close>

theorem bounding_boxes_cover_valid_points:
  assumes "length (bb_begin ext) = n" "length (bb_end ext) = n"
    "\<forall>j < n. bb_begin ext ! j \<le> bb_end ext ! j" "0 < n" "0 < nthreads"
  shows "\<exists>L. find_bounding_box True valid True nthreads ext = Some L
           \<and> (\<forall>pt. length pt = n
                  \<longrightarrow> (list_ex (\<lambda>bb. is_in_bb bb pt) L \<longleftrightarrow> is_in_bb ext pt \<and> valid pt))
           \<and> (\<forall>i j pt. i < j \<and> j < length L \<and> length pt = n
                  \<longrightarrow> \<not> (is_in_bb (L ! i) pt \<and> is_in_bb (L ! j) pt))"
proof -
  from find_bounding_box_ok[OF assms, of valid] obtain L where
    run: "find_bounding_box True valid True nthreads ext = Some L"
    and wf: "\<forall>bb \<in> set L. wf_bb n bb" and dj: "sorted_wrt bb_disjoint L"
    and un: "(\<Union>(bb_points ` set L)) = {pt \<in> bb_points ext. valid pt}"
    by blast
  have pts: "pt \<in> bb_points bb \<longleftrightarrow> is_in_bb bb pt" if "bb \<in> set L" "length pt = n" for bb pt
    using wf that by (simp add: bb_points_def wf_bb_iff)
  have cover: "list_ex (\<lambda>bb. is_in_bb bb pt) L \<longleftrightarrow> is_in_bb ext pt \<and> valid pt"
    if l: "length pt = n" for pt
  proof -
    have "list_ex (\<lambda>bb. is_in_bb bb pt) L \<longleftrightarrow> pt \<in> (\<Union>(bb_points ` set L))"
      using pts[OF _ l] by (auto simp add: list_ex_iff)
    also have "\<dots> \<longleftrightarrow> pt \<in> bb_points ext \<and> valid pt" unfolding un by simp
    also have "\<dots> \<longleftrightarrow> is_in_bb ext pt \<and> valid pt"
      using l assms(1) by (simp add: bb_points_def)
    finally show ?thesis .
  qed
  have disj: "\<not> (is_in_bb (L ! i) pt \<and> is_in_bb (L ! j) pt)"
    if "i < j" "j < length L" "length pt = n" for i j pt
  proof -
    have "bb_disjoint (L ! i) (L ! j)"
      using dj that(1,2) by (simp add: sorted_wrt_iff_nth_less)
    moreover have "L ! i \<in> set L" "L ! j \<in> set L" using that(1,2) by simp_all
    ultimately show ?thesis
      using pts[OF _ that(3)] by (auto simp add: bb_disjoint_def)
  qed
  show ?thesis using run cover disj by blast
qed

lemma box43_run:
  "find_bounding_box True ell_valid True 2 box43
     = Some [\<lparr>bb_begin = [0, 0], bb_end = [2, 3]\<rparr>, \<lparr>bb_begin = [2, 0], bb_end = [4, 1]\<rparr>]"
  by code_simp

lemma box43_points:
  "is_in_bb box43 [3, 0]" "ell_valid [3, 0]" "is_in_bb box43 [3, 1]" "\<not> ell_valid [3, 1]"
  "length (bb_begin box43) = 2" "length (bb_end box43) = 2"
  "bb_begin box43 ! 0 \<le> bb_end box43 ! 0" "bb_begin box43 ! 1 \<le> bb_end box43 ! 1"
  by code_simp+

theorem bounding_boxes_cover_valid_points_witness:
  "length (bb_begin box43) = 2 \<and> length (bb_end box43) = 2
   \<and> bb_begin box43 ! 0 \<le> bb_end box43 ! 0 \<and> bb_begin box43 ! 1 \<le> bb_end box43 ! 1
   \<and> find_bounding_box True ell_valid True 2 box43
       = Some [\<lparr>bb_begin = [0, 0], bb_end = [2, 3]\<rparr>, \<lparr>bb_begin = [2, 0], bb_end = [4, 1]\<rparr>]
   \<and> is_in_bb box43 [3, 0] \<and> ell_valid [3, 0]
   \<and> list_ex (\<lambda>bb. is_in_bb bb [3, 0])
         [\<lparr>bb_begin = [0, 0], bb_end = [2, 3]\<rparr>, \<lparr>bb_begin = [2, 0], bb_end = [4, 1]\<rparr>]
   \<and> is_in_bb box43 [3, 1] \<and> \<not> ell_valid [3, 1]
   \<and> \<not> list_ex (\<lambda>bb. is_in_bb bb [3, 1])
         [\<lparr>bb_begin = [0, 0], bb_end = [2, 3]\<rparr>, \<lparr>bb_begin = [2, 0], bb_end = [4, 1]\<rparr>]"
proof -
  let ?L = "[\<lparr>bb_begin = [0, 0], bb_end = [2, 3]\<rparr>, \<lparr>bb_begin = [2, 0], bb_end = [4, 1]\<rparr>]"
  have h: "\<forall>j < 2. bb_begin box43 ! j \<le> bb_end box43 ! j"
    using box43_points(7,8) by (simp add: less_2_cases_iff)
  from bounding_boxes_cover_valid_points[OF box43_points(5,6) h, of 2 ell_valid]
  obtain L where L: "find_bounding_box True ell_valid True 2 box43 = Some L"
    "\<forall>pt. length pt = 2
       \<longrightarrow> (list_ex (\<lambda>bb. is_in_bb bb pt) L \<longleftrightarrow> is_in_bb box43 pt \<and> ell_valid pt)"
    by auto
  have e: "L = ?L" using L(1) box43_run by simp
  have a: "list_ex (\<lambda>bb. is_in_bb bb [3, 0]) ?L"
    using L(2)[rule_format, of "[3, 0]"] box43_points(1,2) unfolding e by simp
  have b: "\<not> list_ex (\<lambda>bb. is_in_bb bb [3, 1]) ?L"
    using L(2)[rule_format, of "[3, 1]"] box43_points(4) unfolding e by simp
  show ?thesis using a b box43_points box43_run by (intro conjI)
qed

text \<open>
  The scan relies on this order. On a box of 2 by 2 points in which only the first point is
  valid it ends with the rect from \<open>(0, 0)\<close> to \<open>(1, 1)\<close>. Were the last dim innermost, it
  would stop at \<open>(0, 1)\<close>, shorten the last dim and, this being the last dim, not scan
  again: the rect from \<open>(0, 0)\<close> to \<open>(2, 1)\<close> holds the point \<open>(1, 0)\<close>, not valid.
\<close>

lemma scan_relies_on_visit_order:
  "find_bounding_box False corner_valid True 1 box22
     = Some [\<lparr>bb_begin = [0, 0], bb_end = [2, 1]\<rparr>]
   \<and> is_in_bb \<lparr>bb_begin = [0, 0], bb_end = [2, 1]\<rparr> [1, 0]
   \<and> is_in_bb box22 [1, 0] \<and> \<not> corner_valid [1, 0]
   \<and> find_bounding_box True corner_valid True 1 box22
     = Some [\<lparr>bb_begin = [0, 0], bb_end = [1, 1]\<rparr>]"
  by (intro conjI; code_simp)

section \<open>Facts about the dirty flags and the exchange\<close>



























































end
